theory Spec2Isabelle
  imports Main "HOL-Library.Sublist"
begin

section \<open>Strings\<close>

text \<open>
  A JavaScript string is modelled as a \<^typ>\<open>string\<close>, the list of its UTF-8 bytes. The
  separators the code splits on (\<open>.\<close> and \<open>/\<close>) and the link punctuation are ASCII, and an
  ASCII byte never occurs inside a multi-byte UTF-8 sequence, so splitting and literal matching
  cut a string at the same places as the UTF-16 original.
\<close>

text \<open>\<open>s.split(sep)\<close> for a one-character separator: \<open>''''.split(sep)\<close> is \<open>['''']\<close>.\<close>

fun split_on :: "char \<Rightarrow> string \<Rightarrow> string list" where
  "split_on sep [] = [[]]"
| "split_on sep (c # cs) =
     (if c = sep then [] # split_on sep cs
      else (case split_on sep cs of [] \<Rightarrow> [[c]] | x # xs \<Rightarrow> (c # x) # xs))"

text \<open>\<open>parts.join(sep)\<close>.\<close>

fun join :: "string \<Rightarrow> string list \<Rightarrow> string" where
  "join sep [] = []"
| "join sep [x] = x"
| "join sep (x # y # ys) = x @ sep @ join sep (y # ys)"

text \<open>\<open>s.repeat(n)\<close>.\<close>

definition repeat :: "string \<Rightarrow> nat \<Rightarrow> string" where
  "repeat s n = concat (replicate n s)"

text \<open>
  \<open>toLowerCase\<close>, one byte at a time: the ASCII capitals move to their small letters. The only
  other characters whose lower case is an ASCII letter are U+212A (to \<open>k\<close>) and U+0130 (to
  \<open>i\<close> followed by a combining dot); neither result occurs in a supported extension.
\<close>

definition toLowerCase_char :: "char \<Rightarrow> char" where
  "toLowerCase_char c =
     (case map_of (zip ''ABCDEFGHIJKLMNOPQRSTUVWXYZ'' ''abcdefghijklmnopqrstuvwxyz'') c of
        Some l \<Rightarrow> l
      | None \<Rightarrow> c)"

definition toLowerCase :: "string \<Rightarrow> string" where
  "toLowerCase s = map toLowerCase_char s"

section \<open>Supported image formats (src/types/index.ts)\<close>

definition SUPPORTED_IMAGE_EXTENSIONS :: "string list" where
  "SUPPORTED_IMAGE_EXTENSIONS =
     [''png'', ''jpg'', ''jpeg'', ''gif'', ''webp'', ''svg'', ''bmp'']"

text \<open>
  \<open>filename.split('.').pop()?.toLowerCase()\<close>, then \<open>ext ? LIST.includes(ext) : false\<close>: the
  empty string is falsy.
\<close>

definition isImageFile :: "string \<Rightarrow> bool" where
  "isImageFile filename =
     (let ext = toLowerCase (last (split_on (CHR ''.'') filename))
      in if ext \<noteq> [] then ext \<in> set SUPPORTED_IMAGE_EXTENSIONS else False)"

section \<open>Relative paths (LinkUpdater.getRelativePath, FileManager.getRelativePath)\<close>

text \<open>\<open>s.split('/').filter((p) => p)\<close>: the non-empty segments.\<close>

definition path_parts :: "string \<Rightarrow> string list" where
  "path_parts s = filter (\<lambda>p. p \<noteq> []) (split_on (CHR ''/'') s)"

text \<open>The \<open>while\<close> loop that advances \<open>commonLength\<close>.\<close>

function commonLength_loop :: "nat \<Rightarrow> string list \<Rightarrow> string list \<Rightarrow> nat" where
  "commonLength_loop n fromParts toParts =
     (if n < length fromParts \<and> n < length toParts \<and> fromParts ! n = toParts ! n
      then commonLength_loop (Suc n) fromParts toParts else n)"
  by pat_completeness auto
termination
  by (relation "measure (\<lambda>(n, fromParts, toParts). length fromParts - n)") auto

declare commonLength_loop.simps [simp del]

definition getRelativePath :: "string \<Rightarrow> string \<Rightarrow> string" where
  "getRelativePath fromFolder toPath =
     (let fromParts = path_parts fromFolder;
          toParts = path_parts toPath;
          commonLength = commonLength_loop 0 fromParts toParts;
          upCount = length fromParts - commonLength;
          downPath = join ''/'' (drop commonLength toParts)
      in if upCount = 0 then ''./'' @ downPath else repeat ''../'' upCount @ downPath)"

text \<open>FileManager carries a second copy of the same function, statement for statement.\<close>

definition FileManager_getRelativePath :: "string \<Rightarrow> string \<Rightarrow> string" where
  "FileManager_getRelativePath fromFolder toPath =
     (let fromParts = path_parts fromFolder;
          toParts = path_parts toPath;
          commonLength = commonLength_loop 0 fromParts toParts;
          upCount = length fromParts - commonLength;
          downPath = join ''/'' (drop commonLength toParts)
      in if upCount = 0 then ''./'' @ downPath else repeat ''../'' upCount @ downPath)"

section \<open>Link formats (FileManager.formatImageLink)\<close>


text \<open>
  The link text that the plugin inserts for an image, by \<open>settings.linkFormat\<close>. The note's
  folder is \<open>path.substring(0, path.lastIndexOf('/')) || ''\<close>; the image name is
  \<open>imagePath.split('/').pop() || imagePath\<close>.
\<close>

definition note_folder :: "string \<Rightarrow> string" where
  "note_folder p = join ''/'' (butlast (split_on (CHR ''/'') p))"


section \<open>The host: vault, metadata cache, failing operations\<close>

text \<open>
  The Obsidian API is an external collaborator. What the core reads from it is kept in one
  record:
  \<^item> \<open>vault\<close>: the files and folders, keyed by path, in the order \<open>vault.getFiles()\<close> lists
    them; \<open>getAbstractFileByPath\<close> is the lookup;
  \<^item> \<open>resolvedLinks\<close>: \<open>metadataCache.resolvedLinks\<close>, note path to link target to count, in the
    order \<open>Object.entries\<close> enumerates;
  \<^item> \<open>linkpathDest\<close>: \<open>metadataCache.getFirstLinkpathDest(linkpath, sourcePath)\<close>, giving the
    path of the file found, if any;
  \<^item> \<open>throws\<close>: which host operations raise, per operation and path;
  \<^item> \<open>modified\<close>: the calls of \<open>vault.modify\<close> made so far (path and content written), most
    recent first.
\<close>

datatype abstract_file = TFile (stat_mtime: nat) (contents: string) | TFolder

datatype io_op = Read | ReadBinary | Modify | Delete | Rename | CreateFolder

datatype error = Thrown io_op string

record host =
  vault :: "(string \<times> abstract_file) list"
  resolvedLinks :: "(string \<times> (string \<times> nat) list) list"
  linkpathDest :: "string \<Rightarrow> string \<Rightarrow> string option"
  throws :: "io_op \<Rightarrow> string \<Rightarrow> bool"
  modified :: "(string \<times> string) list"

definition getAbstractFileByPath :: "host \<Rightarrow> string \<Rightarrow> abstract_file option" where
  "getAbstractFileByPath h p = map_of (vault h) p"

text \<open>\<open>file && file instanceof TFile\<close>.\<close>

definition is_TFile :: "host \<Rightarrow> string \<Rightarrow> bool" where
  "is_TFile h p = (case getAbstractFileByPath h p of Some (TFile m c) \<Rightarrow> True | _ \<Rightarrow> False)"

fun getFiles_list :: "(string \<times> abstract_file) list \<Rightarrow> string list" where
  "getFiles_list [] = []"
| "getFiles_list ((p, TFile m c) # rest) = p # getFiles_list rest"
| "getFiles_list ((p, TFolder) # rest) = getFiles_list rest"

definition getFiles :: "host \<Rightarrow> string list" where
  "getFiles h = getFiles_list (vault h)"

definition adapter_exists :: "host \<Rightarrow> string \<Rightarrow> bool" where
  "adapter_exists h p = (p \<in> set (map fst (vault h)))"

definition vault_delete :: "host \<Rightarrow> string \<Rightarrow> error + host" where
  "vault_delete h p =
     (if throws h Delete p then Inl (Thrown Delete p)
      else Inr (h\<lparr>vault := filter (\<lambda>(q, f). q \<noteq> p) (vault h)\<rparr>))"

text \<open>\<open>vault.rename\<close> refuses a destination that exists; the moved file is listed last.\<close>

definition vault_rename :: "host \<Rightarrow> string \<Rightarrow> string \<Rightarrow> error + host" where
  "vault_rename h p newPath =
     (case getAbstractFileByPath h p of
        None \<Rightarrow> Inl (Thrown Rename p)
      | Some f \<Rightarrow>
          if throws h Rename p \<or> adapter_exists h newPath then Inl (Thrown Rename p)
          else Inr (h\<lparr>vault := filter (\<lambda>(q, f). q \<noteq> p) (vault h) @ [(newPath, f)]\<rparr>))"

definition vault_createFolder :: "host \<Rightarrow> string \<Rightarrow> error + host" where
  "vault_createFolder h p =
     (if throws h CreateFolder p \<or> adapter_exists h p then Inl (Thrown CreateFolder p)
      else Inr (h\<lparr>vault := vault h @ [(p, TFolder)]\<rparr>))"

text \<open>\<open>vault.read\<close> and \<open>vault.readBinary\<close> of a file the caller holds.\<close>

definition vault_read :: "host \<Rightarrow> string \<Rightarrow> error + string" where
  "vault_read h p =
     (case getAbstractFileByPath h p of
        Some (TFile m c) \<Rightarrow> if throws h Read p then Inl (Thrown Read p) else Inr c
      | _ \<Rightarrow> Inl (Thrown Read p))"

definition vault_readBinary :: "host \<Rightarrow> string \<Rightarrow> error + string" where
  "vault_readBinary h p =
     (case getAbstractFileByPath h p of
        Some (TFile m c) \<Rightarrow> if throws h ReadBinary p then Inl (Thrown ReadBinary p) else Inr c
      | _ \<Rightarrow> Inl (Thrown ReadBinary p))"

text \<open>
  \<open>vault.modify\<close> replaces the content and is recorded in \<open>modified\<close>. The host's clock is not
  modelled: the stored modification time is left as it is.
\<close>

fun set_contents :: "string \<Rightarrow> string \<Rightarrow> (string \<times> abstract_file) list \<Rightarrow> (string \<times> abstract_file) list" where
  "set_contents p c [] = []"
| "set_contents p c ((q, f) # rest) =
     (if q = p then (case f of TFile m old \<Rightarrow> (q, TFile m c) | TFolder \<Rightarrow> (q, f)) # rest
      else (q, f) # set_contents p c rest)"

definition vault_modify :: "host \<Rightarrow> string \<Rightarrow> string \<Rightarrow> error + host" where
  "vault_modify h p c =
     (if throws h Modify p \<or> \<not> is_TFile h p then Inl (Thrown Modify p)
      else Inr (h\<lparr>vault := set_contents p c (vault h), modified := (p, c) # modified h\<rparr>))"

text \<open>
  The \<open>in\<close> operator on a plain object: an own key, or a property inherited from
  \<open>Object.prototype\<close>.
\<close>

definition Object_prototype_properties :: "string list" where
  "Object_prototype_properties =
     [''constructor'', ''__defineGetter__'', ''__defineSetter__'', ''hasOwnProperty'',
      ''__lookupGetter__'', ''__lookupSetter__'', ''isPrototypeOf'', ''propertyIsEnumerable'',
      ''toString'', ''valueOf'', ''__proto__'', ''toLocaleString'']"

definition in_object :: "string \<Rightarrow> (string \<times> 'v) list \<Rightarrow> bool" where
  "in_object k obj = (k \<in> set (map fst obj) \<or> k \<in> set Object_prototype_properties)"

text \<open>\<open>TFile.name\<close>: the last segment of the path.\<close>

definition file_name :: "string \<Rightarrow> string" where
  "file_name p = last (split_on (CHR ''/'') p)"

section \<open>Settings\<close>

datatype OrphanHandling = keep | moveToFolder | markOnly

record settings =
  orphanHandling :: OrphanHandling
  orphanFolder :: string

section \<open>OrphanDetector\<close>

text \<open>The private field \<open>orphanImages: Set<string>\<close> is passed in and returned.\<close>

definition getAllReferencedImages :: "host \<Rightarrow> string set" where
  "getAllReferencedImages h =
     set (filter isImageFile (concat (map (\<lambda>(notePath, links). map fst links) (resolvedLinks h))))"

text \<open>The loop of \<open>scanOrphanImages\<close> over \<open>allImages\<close>, pushing and adding each unreferenced image.\<close>

fun scan_loop :: "string set \<Rightarrow> string list \<Rightarrow> string list \<Rightarrow> string set \<Rightarrow> string list \<times> string set" where
  "scan_loop referencedImages [] orphans orphanImages = (orphans, orphanImages)"
| "scan_loop referencedImages (img # rest) orphans orphanImages =
     (if img \<notin> referencedImages
      then scan_loop referencedImages rest (orphans @ [img]) (insert img orphanImages)
      else scan_loop referencedImages rest orphans orphanImages)"

text \<open>A number in a template literal: its decimal digits.\<close>

function show_nat :: "nat \<Rightarrow> string" where
  "show_nat n =
     (if n < 10 then [''0123456789'' ! n]
      else show_nat (n div 10) @ [''0123456789'' ! (n mod 10)])"
  by pat_completeness auto
termination
  by (relation "measure id") auto

declare show_nat.simps [simp del]

text \<open>
  \<open>fileName.replace(/\.[^.]+$/, "")\<close>: the match can only start at the last dot, and needs at
  least one character after it.
\<close>

definition strip_extension :: "string \<Rightarrow> string" where
  "strip_extension fileName =
     (let parts = split_on (CHR ''.'') fileName
      in if 2 \<le> length parts \<and> last parts \<noteq> [] then join ''.'' (butlast parts) else fileName)"

text \<open>
  The \<open>while (await adapter.exists(finalPath))\<close> loop. Nothing bounds it: \<open>normalizePath\<close> is the
  host's, so the candidates need not differ. Not returning is the value \<open>None\<close>.
\<close>

partial_function (option) free_path :: "host \<Rightarrow> (nat \<Rightarrow> string) \<Rightarrow> string \<Rightarrow> nat \<Rightarrow> string option" where
  "free_path h candidate finalPath counter =
     (if adapter_exists h finalPath then free_path h candidate (candidate counter) (Suc counter)
      else Some finalPath)"

declare free_path.simps [code]

definition ensureFolderExists :: "(string \<Rightarrow> string) \<Rightarrow> host \<Rightarrow> string \<Rightarrow> error + host" where
  "ensureFolderExists normalizePath h folderPath =
     (if folderPath = [] then Inr h
      else let normalizedPath = normalizePath folderPath
           in case getAbstractFileByPath h normalizedPath of
                None \<Rightarrow> vault_createFolder h normalizedPath
              | Some folder \<Rightarrow> Inr h)"

fun moveOrphans_loop :: "(string \<Rightarrow> string) \<Rightarrow> string \<Rightarrow> string list \<Rightarrow> host \<Rightarrow> nat \<Rightarrow> (host \<times> nat) option" where
  "moveOrphans_loop normalizePath targetFolder [] h movedCount = Some (h, movedCount)"
| "moveOrphans_loop normalizePath targetFolder (imagePath # rest) h movedCount =
     (if is_TFile h imagePath then
        (let fileName = file_name imagePath;
             newPath = normalizePath (targetFolder @ ''/'' @ fileName);
             ext = last (split_on (CHR ''.'') fileName);
             nameWithoutExt = strip_extension fileName
         in case free_path h
                  (\<lambda>counter. normalizePath
                     (targetFolder @ ''/'' @ nameWithoutExt @ ''_'' @ show_nat counter @ ''.'' @ ext))
                  newPath 1 of
              None \<Rightarrow> None
            | Some finalPath \<Rightarrow>
                (case vault_rename h imagePath finalPath of
                   Inr h' \<Rightarrow> moveOrphans_loop normalizePath targetFolder rest h' (Suc movedCount)
                 | Inl e \<Rightarrow> moveOrphans_loop normalizePath targetFolder rest h movedCount))
      else moveOrphans_loop normalizePath targetFolder rest h movedCount)"

text \<open>
  \<open>moveOrphansToFolder\<close>: a failing \<open>createFolder\<close> is not caught here and ends the call; a failing
  \<open>rename\<close> is caught per file.
\<close>

definition moveOrphansToFolder :: "(string \<Rightarrow> string) \<Rightarrow> settings \<Rightarrow> host \<Rightarrow> string list \<Rightarrow> (host \<times> (error + nat)) option" where
  "moveOrphansToFolder normalizePath st h orphanPaths =
     (let targetFolder = orphanFolder st
      in case ensureFolderExists normalizePath h targetFolder of
           Inl e \<Rightarrow> Some (h, Inl e)
         | Inr h1 \<Rightarrow>
             (case moveOrphans_loop normalizePath targetFolder orphanPaths h1 0 of
                None \<Rightarrow> None
              | Some (h2, movedCount) \<Rightarrow> Some (h2, Inr movedCount)))"

text \<open>
  \<open>scanOrphanImages\<close> returns the host, the new \<open>orphanImages\<close> and either the list of orphans or
  the error that ended it. The set it was called with is cleared, so it is not read.
\<close>

definition scanOrphanImages :: "(string \<Rightarrow> string) \<Rightarrow> settings \<Rightarrow> host \<Rightarrow> string set \<Rightarrow> (host \<times> string set \<times> (error + string list)) option" where
  "scanOrphanImages normalizePath st h orphanImages0 =
     (let allImages = filter isImageFile (getFiles h);
          referencedImages = getAllReferencedImages h;
          (orphans, orphanImages) = scan_loop referencedImages allImages [] {}
      in if orphanHandling st = moveToFolder \<and> orphans \<noteq> [] then
           (case moveOrphansToFolder normalizePath st h orphans of
              None \<Rightarrow> None
            | Some (h', Inl e) \<Rightarrow> Some (h', orphanImages, Inl e)
            | Some (h', Inr moved) \<Rightarrow> Some (h', orphanImages, Inr orphans))
         else Some (h, orphanImages, Inr orphans))"

text \<open>\<open>isOrphan\<close> returns its answer and the set, which it extends on a miss.\<close>

definition isOrphan :: "host \<Rightarrow> string set \<Rightarrow> string \<Rightarrow> bool \<times> string set" where
  "isOrphan h orphanImages imagePath =
     (if imagePath \<in> orphanImages then (True, orphanImages)
      else if list_ex (\<lambda>(notePath, links). in_object imagePath links) (resolvedLinks h)
           then (False, orphanImages)
           else (True, insert imagePath orphanImages))"

text \<open>The loop of \<open>deleteOrphanImages\<close>: a failing delete is caught and the path skipped.\<close>

fun deleteOrphanImages_loop :: "string list \<Rightarrow> host \<Rightarrow> string set \<Rightarrow> nat \<Rightarrow> host \<times> string set \<times> nat" where
  "deleteOrphanImages_loop [] h orphanImages deletedCount = (h, orphanImages, deletedCount)"
| "deleteOrphanImages_loop (imagePath # rest) h orphanImages deletedCount =
     (if is_TFile h imagePath then
        (case vault_delete h imagePath of
           Inr h' \<Rightarrow> deleteOrphanImages_loop rest h' (orphanImages - {imagePath}) (Suc deletedCount)
         | Inl e \<Rightarrow> deleteOrphanImages_loop rest h orphanImages deletedCount)
      else deleteOrphanImages_loop rest h orphanImages deletedCount)"

definition deleteOrphanImages :: "host \<Rightarrow> string set \<Rightarrow> string list \<Rightarrow> host \<times> string set \<times> nat" where
  "deleteOrphanImages h orphanImages imagePaths = deleteOrphanImages_loop imagePaths h orphanImages 0"

section \<open>HashService\<close>

text \<open>
  The cache is a plain object from path to \<open>{hash, mtime}\<close>, kept as the list of its entries in
  the order \<open>Object.entries\<close> enumerates them: an assignment to a key that is present replaces
  its value in place, an assignment to a new key adds it at the end, \<open>delete\<close> removes it.
  The callers only pass image files, and no property of \<open>Object.prototype\<close> has the name of an
  image file, so the lookup \<open>this.cache[path]\<close> is the lookup of an own key.
\<close>

record HashCacheEntry =
  hash :: string
  mtime :: nat

type_synonym HashCache = "(string \<times> HashCacheEntry) list"

definition cache_get :: "HashCache \<Rightarrow> string \<Rightarrow> HashCacheEntry option" where
  "cache_get cache p = map_of cache p"

fun cache_set :: "HashCache \<Rightarrow> string \<Rightarrow> HashCacheEntry \<Rightarrow> HashCache" where
  "cache_set [] p e = [(p, e)]"
| "cache_set ((q, old) # rest) p e =
     (if q = p then (q, e) # rest else (q, old) # cache_set rest p e)"

definition cache_delete :: "HashCache \<Rightarrow> string \<Rightarrow> HashCache" where
  "cache_delete cache p = filter (\<lambda>(q, e). q \<noteq> p) cache"

text \<open>
  \<open>computeHash\<close>: the first 16 characters of the SHA-256 digest in hexadecimal. The digest comes
  from Node's \<open>crypto\<close>; it is the parameter \<open>sha256hex\<close>.
\<close>

definition computeHash :: "(string \<Rightarrow> string) \<Rightarrow> string \<Rightarrow> string" where
  "computeHash sha256hex data = take 16 (sha256hex data)"

definition calculateHashFromBuffer :: "(string \<Rightarrow> string) \<Rightarrow> string \<Rightarrow> string" where
  "calculateHashFromBuffer sha256hex data = computeHash sha256hex data"

text \<open>
  \<open>file.stat.mtime\<close> of a file taken from \<open>vault.getFiles()\<close>.
\<close>

definition file_stat_mtime :: "host \<Rightarrow> string \<Rightarrow> nat" where
  "file_stat_mtime h p = (case getAbstractFileByPath h p of Some (TFile m c) \<Rightarrow> m | _ \<Rightarrow> 0)"

text \<open>
  \<open>calculateHash(file)\<close>, with \<open>file.path\<close> and \<open>file.stat.mtime\<close> as arguments. It returns the
  cache and the hash, or the error of \<open>readBinary\<close>.
\<close>

definition calculateHash_new :: "(string \<Rightarrow> string) \<Rightarrow> host \<Rightarrow> HashCache \<Rightarrow> string \<Rightarrow> nat \<Rightarrow> HashCache \<times> (error + string)" where
  "calculateHash_new sha256hex h cache path file_mtime =
     (case vault_readBinary h path of
        Inl e \<Rightarrow> (cache, Inl e)
      | Inr data \<Rightarrow>
          (let hash' = computeHash sha256hex data
           in (cache_set cache path \<lparr>hash = hash', mtime = file_mtime\<rparr>, Inr hash')))"

definition calculateHash :: "(string \<Rightarrow> string) \<Rightarrow> host \<Rightarrow> HashCache \<Rightarrow> string \<Rightarrow> nat \<Rightarrow> HashCache \<times> (error + string)" where
  "calculateHash sha256hex h cache path file_mtime =
     (case cache_get cache path of
        Some cached \<Rightarrow>
          if mtime cached = file_mtime then (cache, Inr (hash cached))
          else calculateHash_new sha256hex h cache path file_mtime
      | None \<Rightarrow> calculateHash_new sha256hex h cache path file_mtime)"

text \<open>
  The first loop of \<open>findDuplicate\<close>, over the entries the cache had when the loop began; the
  cache itself is the last argument.
\<close>

fun findDuplicate_cached :: "host \<Rightarrow> string \<Rightarrow> (string \<times> HashCacheEntry) list \<Rightarrow> HashCache \<Rightarrow> HashCache \<times> string option" where
  "findDuplicate_cached h newHash [] cache = (cache, None)"
| "findDuplicate_cached h newHash ((path, entry) # rest) cache =
     (if hash entry = newHash then
        (if is_TFile h path then (cache, Some path)
         else findDuplicate_cached h newHash rest (cache_delete cache path))
      else findDuplicate_cached h newHash rest cache)"

text \<open>The second loop, over the image files of the vault.\<close>

fun findDuplicate_vault :: "(string \<Rightarrow> string) \<Rightarrow> host \<Rightarrow> string \<Rightarrow> string list \<Rightarrow> HashCache \<Rightarrow> HashCache \<times> (error + string option)" where
  "findDuplicate_vault sha256hex h newHash [] cache = (cache, Inr None)"
| "findDuplicate_vault sha256hex h newHash (img # rest) cache =
     (if cache_get cache img = None then
        (case calculateHash sha256hex h cache img (file_stat_mtime h img) of
           (cache', Inl e) \<Rightarrow> (cache', Inl e)
         | (cache', Inr hash') \<Rightarrow>
             if hash' = newHash then (cache', Inr (Some img))
             else findDuplicate_vault sha256hex h newHash rest cache')
      else findDuplicate_vault sha256hex h newHash rest cache)"

definition findDuplicate :: "(string \<Rightarrow> string) \<Rightarrow> host \<Rightarrow> HashCache \<Rightarrow> string \<Rightarrow> HashCache \<times> (error + string option)" where
  "findDuplicate sha256hex h cache data =
     (let newHash = calculateHashFromBuffer sha256hex data
      in case findDuplicate_cached h newHash cache cache of
           (cache1, Some path) \<Rightarrow> (cache1, Inr (Some path))
         | (cache1, None) \<Rightarrow>
             findDuplicate_vault sha256hex h newHash (filter isImageFile (getFiles h)) cache1)"

section \<open>LinkUpdater\<close>

subsection \<open>Replacement templates\<close>

text \<open>
  \<open>String.prototype.replace\<close> expands its replacement string (ECMAScript GetSubstitution):
  \<open>$$\<close> is a dollar, \<open>$&\<close> the match, \<open>$`\<close> and \<open>$'\<close> the text before and after the match, \<open>$n\<close>
  and \<open>$nn\<close> a capture (empty when the group did not take part). A two-digit reference beyond
  the number of groups is read as a one-digit reference followed by a digit; a reference to no
  group stays as it is written. There are no named groups, so \<open>$<\<close> is literal.
\<close>

definition is_digit :: "char \<Rightarrow> bool" where
  "is_digit c = (c \<in> set ''0123456789'')"

definition digit_val :: "char \<Rightarrow> nat" where
  "digit_val c = length (takeWhile (\<lambda>d. d \<noteq> c) ''0123456789'')"

definition capture_text :: "string option list \<Rightarrow> nat \<Rightarrow> string" where
  "capture_text captures n = (case captures ! (n - 1) of Some s \<Rightarrow> s | None \<Rightarrow> [])"

definition one_digit_ref :: "string option list \<Rightarrow> char \<Rightarrow> string" where
  "one_digit_ref captures d =
     (if 1 \<le> digit_val d \<and> digit_val d \<le> length captures
      then capture_text captures (digit_val d) else [CHR ''$'', d])"

fun getSubstitution :: "string \<Rightarrow> string \<Rightarrow> string \<Rightarrow> string option list \<Rightarrow> string \<Rightarrow> string" where
  "getSubstitution matched pre post captures [] = []"
| "getSubstitution matched pre post captures [c] = [c]"
| "getSubstitution matched pre post captures (c # d # r) =
     (if c \<noteq> CHR ''$'' then c # getSubstitution matched pre post captures (d # r)
      else if d = CHR ''$'' then CHR ''$'' # getSubstitution matched pre post captures r
      else if d = CHR ''&'' then matched @ getSubstitution matched pre post captures r
      else if d = CHR 0x60 then pre @ getSubstitution matched pre post captures r
      else if d = CHR 0x27 then post @ getSubstitution matched pre post captures r
      else if is_digit d then
        (case r of
           [] \<Rightarrow> one_digit_ref captures d
         | e # r' \<Rightarrow>
             if is_digit e \<and> 10 * digit_val d + digit_val e \<le> length captures then
               (if 1 \<le> 10 * digit_val d + digit_val e
                then capture_text captures (10 * digit_val d + digit_val e)
                else [CHR ''$'', d, e])
               @ getSubstitution matched pre post captures r'
             else one_digit_ref captures d @ getSubstitution matched pre post captures r)
      else c # getSubstitution matched pre post captures (d # r))"

subsection \<open>Global replacement with a regular expression\<close>

text \<open>
  A matcher is a regular expression tried at the start of the remaining input: it gives the
  captures and the length of the match. \<open>content.replace(regex, ...)\<close> with the \<open>g\<close> flag scans
  from the left; at a match it emits the replacement and continues behind the match, otherwise
  it copies one character. \<open>pre\<close> is the input already passed, \<open>skip\<close> the number of
  characters of the current match still to pass. Every regular expression here starts with
  \<open>![\<close>, so no match is empty.
\<close>

type_synonym matcher = "string \<Rightarrow> (string option list \<times> nat) option"

type_synonym replacer = "string \<Rightarrow> string \<Rightarrow> string \<Rightarrow> string option list \<Rightarrow> string"

fun replace_global :: "matcher \<Rightarrow> replacer \<Rightarrow> string \<Rightarrow> nat \<Rightarrow> string \<Rightarrow> string" where
  "replace_global m rep pre skip [] = []"
| "replace_global m rep pre (Suc k) (c # cs) = replace_global m rep (pre @ [c]) k cs"
| "replace_global m rep pre 0 (c # cs) =
     (case m (c # cs) of
        Some (captures, n) \<Rightarrow>
          rep (take n (c # cs)) pre (drop n (c # cs)) captures
            @ replace_global m rep (pre @ [c]) (n - 1) cs
      | None \<Rightarrow> c # replace_global m rep (pre @ [c]) 0 cs)"

text \<open>The replacement given as a template string.\<close>

definition template :: "string \<Rightarrow> replacer" where
  "template t matched pre post captures = getSubstitution matched pre post captures t"

text \<open>The input that remains behind a literal prefix.\<close>

fun strip_prefix :: "string \<Rightarrow> string \<Rightarrow> string option" where
  "strip_prefix [] s = Some s"
| "strip_prefix (p # ps) [] = None"
| "strip_prefix (p # ps) (c # cs) = (if p = c then strip_prefix ps cs else None)"

text \<open>
  \<open>escapeRegex\<close> puts a backslash before each of \<open>. * + ? ^ $ { } ( ) | [ ]\<close> and the backslash,
  the only characters with a meaning in a pattern outside a character class.
\<close>

definition regex_special :: "char \<Rightarrow> bool" where
  "regex_special c = (c \<in> set (''.*+?^${}()|[]'' @ [CHR 0x5C]))"

definition escapeRegex :: "string \<Rightarrow> string" where
  "escapeRegex str = concat (map (\<lambda>c. if regex_special c then [CHR 0x5C, c] else [c]) str)"

text \<open>
  A pattern made of ordinary characters and escaped special characters only, tried at the start
  of the input: an ordinary character matches itself, a backslash followed by a special
  character matches that character. Anything else is not such a pattern.
\<close>

fun match_literal_pattern :: "string \<Rightarrow> string \<Rightarrow> string option" where
  "match_literal_pattern [] s = Some s"
| "match_literal_pattern [p] s =
     (if regex_special p then None
      else (case s of [] \<Rightarrow> None | c # cs \<Rightarrow> if p = c then Some cs else None))"
| "match_literal_pattern (p # q # ps) s =
     (if p = CHR 0x5C then
        (if regex_special q then
           (case s of [] \<Rightarrow> None
            | c # cs \<Rightarrow> if q = c then match_literal_pattern ps cs else None)
         else None)
      else if regex_special p then None
      else (case s of [] \<Rightarrow> None
            | c # cs \<Rightarrow> if p = c then match_literal_pattern (q # ps) cs else None))"

text \<open>
  The escaped path is such a pattern and matches the path itself and nothing else (lemma
  \<open>escapeRegex_literal\<close>): in the matchers below it is a literal prefix.

  \<open>(\|[^\]]*)?\]\]\<close>: the group takes a bar and everything up to the next \<open>]\<close>. Giving
  characters back cannot help, since a \<open>]\<close> has to follow; and without the group the input
  would have to start with \<open>]\<close>, not with the bar.
\<close>

definition match_alias_end :: "string \<Rightarrow> (string option \<times> nat) option" where
  "match_alias_end r =
     (case r of
        [] \<Rightarrow> None
      | c # r1 \<Rightarrow>
          if c = CHR ''|'' then
            (case strip_prefix '']]'' (dropWhile (\<lambda>x. x \<noteq> CHR '']'') r1) of
               Some rest \<Rightarrow>
                 (let alias = takeWhile (\<lambda>x. x \<noteq> CHR '']'') r1
                  in Some (Some (CHR ''|'' # alias), 1 + length alias + 2))
             | None \<Rightarrow> None)
          else (case strip_prefix '']]'' r of Some rest \<Rightarrow> Some (None, 2) | None \<Rightarrow> None))"

text \<open>\<open>!\[\[TARGET(\|[^\]]*)?\]\]\<close>\<close>

definition match_wikilink :: "string \<Rightarrow> matcher" where
  "match_wikilink target s =
     (case strip_prefix (''![['' @ target) s of
        None \<Rightarrow> None
      | Some r \<Rightarrow>
          (case match_alias_end r of
             None \<Rightarrow> None
           | Some (g, n) \<Rightarrow> Some ([g], 3 + length target + n)))"

text \<open>
  \<open>!\[([^\]]*)\]\(/?TARGET\)\<close>: the alternative text runs to the next \<open>]\<close>; the optional slash
  is tried first and given back when the rest does not match behind it.
\<close>

definition match_markdown_absolute :: "string \<Rightarrow> matcher" where
  "match_markdown_absolute target s =
     (case strip_prefix ''!['' s of
        None \<Rightarrow> None
      | Some r \<Rightarrow>
          (let alt = takeWhile (\<lambda>x. x \<noteq> CHR '']'') r
           in case strip_prefix '']('' (dropWhile (\<lambda>x. x \<noteq> CHR '']'') r) of
                None \<Rightarrow> None
              | Some r2 \<Rightarrow>
                  (case strip_prefix (CHR ''/'' # target @ '')'') r2 of
                     Some rest \<Rightarrow> Some ([Some alt], 2 + length alt + 2 + 1 + length target + 1)
                   | None \<Rightarrow>
                       (case strip_prefix (target @ '')'') r2 of
                          Some rest \<Rightarrow> Some ([Some alt], 2 + length alt + 2 + length target + 1)
                        | None \<Rightarrow> None))))"

text \<open>\<open>!\[([^\]]*)\]\(TARGET\)\<close>\<close>

definition match_markdown_relative :: "string \<Rightarrow> matcher" where
  "match_markdown_relative target s =
     (case strip_prefix ''!['' s of
        None \<Rightarrow> None
      | Some r \<Rightarrow>
          (let alt = takeWhile (\<lambda>x. x \<noteq> CHR '']'') r
           in case strip_prefix '']('' (dropWhile (\<lambda>x. x \<noteq> CHR '']'') r) of
                None \<Rightarrow> None
              | Some r2 \<Rightarrow>
                  (case strip_prefix (target @ '')'') r2 of
                     Some rest \<Rightarrow> Some ([Some alt], 2 + length alt + 2 + length target + 1)
                   | None \<Rightarrow> None)))"

subsection \<open>Replacement of a substring\<close>

text \<open>
  \<open>s.replace(pattern, replacement)\<close> with a string pattern: the first occurrence is replaced, and
  the replacement is a template without captures.
\<close>

fun split_at_first :: "string \<Rightarrow> string \<Rightarrow> (string \<times> string) option" where
  "split_at_first pat [] = (if pat = [] then Some ([], []) else None)"
| "split_at_first pat (c # cs) =
     (case strip_prefix pat (c # cs) of
        Some rest \<Rightarrow> Some ([], rest)
      | None \<Rightarrow>
          (case split_at_first pat cs of
             Some (pre, post) \<Rightarrow> Some (c # pre, post)
           | None \<Rightarrow> None))"

definition string_replace :: "string \<Rightarrow> string \<Rightarrow> string \<Rightarrow> string" where
  "string_replace s pat replacement =
     (case split_at_first pat s of
        None \<Rightarrow> s
      | Some (pre, post) \<Rightarrow> pre @ getSubstitution pat pre post [] replacement @ post)"

subsection \<open>updateLinksInNote\<close>

text \<open>The four replacements, in the order of the source.\<close>

definition rewrite_full_wikilink :: "string \<Rightarrow> string \<Rightarrow> string \<Rightarrow> string" where
  "rewrite_full_wikilink oldPath newPath content =
     replace_global (match_wikilink oldPath) (template (''![['' @ newPath @ ''$1]]'')) [] 0 content"

definition rewrite_name_wikilink :: "host \<Rightarrow> string \<Rightarrow> string \<Rightarrow> string \<Rightarrow> string \<Rightarrow> string" where
  "rewrite_name_wikilink h notePath oldPath newPath content =
     (let oldName = file_name oldPath; newName = file_name newPath
      in if oldName \<noteq> newName then
           replace_global (match_wikilink oldName)
             (\<lambda>matched pre post captures.
                if linkpathDest h oldName notePath = Some oldPath
                then string_replace matched oldName newName
                else matched)
             [] 0 content
         else content)"

definition rewrite_absolute_markdown :: "string \<Rightarrow> string \<Rightarrow> string \<Rightarrow> string" where
  "rewrite_absolute_markdown oldPath newPath content =
     replace_global (match_markdown_absolute oldPath) (template (''![$1](/'' @ newPath @ '')'')) [] 0
       content"

definition rewrite_relative_markdown :: "string \<Rightarrow> string \<Rightarrow> string \<Rightarrow> string \<Rightarrow> string" where
  "rewrite_relative_markdown notePath oldPath newPath content =
     (let noteFolder = note_folder notePath;
          oldRelative = getRelativePath noteFolder oldPath;
          newRelative = getRelativePath noteFolder newPath
      in replace_global (match_markdown_relative oldRelative)
           (template (''![$1]('' @ newRelative @ '')'')) [] 0 content)"

definition rewriteLinks :: "host \<Rightarrow> string \<Rightarrow> string \<Rightarrow> string \<Rightarrow> string \<Rightarrow> string" where
  "rewriteLinks h notePath oldPath newPath content =
     rewrite_relative_markdown notePath oldPath newPath
       (rewrite_absolute_markdown oldPath newPath
          (rewrite_name_wikilink h notePath oldPath newPath
             (rewrite_full_wikilink oldPath newPath content)))"

text \<open>
  \<open>updateLinksInNote\<close> has no \<open>try\<close>: an error of \<open>read\<close> or \<open>modify\<close> leaves it as the error.
\<close>

definition updateLinksInNote :: "host \<Rightarrow> string \<Rightarrow> string \<Rightarrow> string \<Rightarrow> host \<times> (error + bool)" where
  "updateLinksInNote h notePath oldPath newPath =
     (case vault_read h notePath of
        Inl e \<Rightarrow> (h, Inl e)
      | Inr originalContent \<Rightarrow>
          (let content = rewriteLinks h notePath oldPath newPath originalContent
           in if content \<noteq> originalContent then
                (case vault_modify h notePath content of
                   Inl e \<Rightarrow> (h, Inl e)
                 | Inr h' \<Rightarrow> (h', Inr True))
              else (h, Inr False)))"

subsection \<open>updateImageReferences and batchUpdateReferences\<close>

definition findNotesReferencingImage :: "host \<Rightarrow> string \<Rightarrow> string list" where
  "findNotesReferencingImage h imagePath =
     map fst (filter (\<lambda>(notePath, links). imagePath \<in> set (map fst links)) (resolvedLinks h))"

text \<open>The loop over \<open>notesToUpdate\<close>; nothing in it catches the error of a note.\<close>

fun updateImageReferences_loop :: "string list \<Rightarrow> string \<Rightarrow> string \<Rightarrow> host \<Rightarrow> nat \<Rightarrow> host \<times> (error + nat)" where
  "updateImageReferences_loop [] oldPath newPath h updatedCount = (h, Inr updatedCount)"
| "updateImageReferences_loop (notePath # rest) oldPath newPath h updatedCount =
     (if is_TFile h notePath then
        (case updateLinksInNote h notePath oldPath newPath of
           (h', Inl e) \<Rightarrow> (h', Inl e)
         | (h', Inr updated) \<Rightarrow>
             updateImageReferences_loop rest oldPath newPath h'
               (if updated then Suc updatedCount else updatedCount))
      else updateImageReferences_loop rest oldPath newPath h updatedCount)"

definition updateImageReferences :: "host \<Rightarrow> string \<Rightarrow> string \<Rightarrow> host \<times> (error + nat)" where
  "updateImageReferences h oldPath newPath =
     updateImageReferences_loop (findNotesReferencingImage h oldPath) oldPath newPath h 0"

fun batchUpdateReferences_loop :: "(string \<times> string) list \<Rightarrow> host \<Rightarrow> nat \<Rightarrow> host \<times> (error + nat)" where
  "batchUpdateReferences_loop [] h totalUpdated = (h, Inr totalUpdated)"
| "batchUpdateReferences_loop ((oldPath, newPath) # rest) h totalUpdated =
     (case updateImageReferences h oldPath newPath of
        (h', Inl e) \<Rightarrow> (h', Inl e)
      | (h', Inr count) \<Rightarrow> batchUpdateReferences_loop rest h' (totalUpdated + count))"

definition batchUpdateReferences :: "host \<Rightarrow> (string \<times> string) list \<Rightarrow> host \<times> (error + nat)" where
  "batchUpdateReferences h updates = batchUpdateReferences_loop updates h 0"

text \<open>A regular expression has a match somewhere in the input.\<close>

fun has_match :: "matcher \<Rightarrow> string \<Rightarrow> bool" where
  "has_match m [] = False"
| "has_match m (c # cs) = (m (c # cs) \<noteq> None \<or> has_match m cs)"

section \<open>Auxiliary notions for the statements\<close>

text \<open>The bytes of the file at a path, as \<open>readBinary\<close> returns them when it does not throw.\<close>

definition file_contents :: "host \<Rightarrow> string \<Rightarrow> string" where
  "file_contents h p = (case getAbstractFileByPath h p of Some (TFile m c) \<Rightarrow> c | _ \<Rightarrow> [])"

text \<open>
  The paths that the first loop of \<open>findDuplicate\<close> removes from the cache: those of the entries
  with the new hash that come before the first entry with the new hash whose file exists.
\<close>

definition purged_paths :: "host \<Rightarrow> string \<Rightarrow> HashCache \<Rightarrow> string set" where
  "purged_paths h newHash cache =
     set (map fst (filter (\<lambda>(p, e). hash e = newHash)
            (takeWhile (\<lambda>(p, e). \<not> (hash e = newHash \<and> is_TFile h p)) cache)))"

text \<open>The paths of a list that resolve to a file whose delete does not throw.\<close>

definition deletable :: "host \<Rightarrow> string list \<Rightarrow> string set" where
  "deletable h paths = set (filter (\<lambda>p. is_TFile h p \<and> \<not> throws h Delete p) paths)"

text \<open>
  A path or alternative text without the characters that delimit a link or start a reference
  in a replacement template.
\<close>

definition link_safe :: "string \<Rightarrow> bool" where
  "link_safe p = list_all (\<lambda>c. c \<notin> set ''![]|$'') p"


definition markdown_text :: "string \<Rightarrow> string \<Rightarrow> string" where
  "markdown_text alt target = ''!['' @ alt @ '']('' @ target @ '')''"

section \<open>The image-file predicate\<close>

lemma split_on_not_Nil [simp]: "split_on sep s \<noteq> []"
  by (induction s) (auto split: list.splits)

lemma split_on_no_sep: "sep \<notin> set s \<Longrightarrow> split_on sep s = [s]"
  by (induction s) auto

lemma split_on_append:
  "split_on sep (p @ sep # e) = split_on sep p @ split_on sep e"
  by (induction p) (auto split: list.splits)

lemma last_split_on_append:
  "sep \<notin> set e \<Longrightarrow> last (split_on sep (p @ sep # e)) = e"
  by (simp add: split_on_append split_on_no_sep)

lemma isImageFile_after_last_dot:
  "CHR ''.'' \<notin> set e \<Longrightarrow>
     isImageFile (p @ CHR ''.'' # e) = (toLowerCase e \<in> set SUPPORTED_IMAGE_EXTENSIONS)"
  by (auto simp: isImageFile_def last_split_on_append Let_def SUPPORTED_IMAGE_EXTENSIONS_def)

lemma isImageFile_no_dot:
  "CHR ''.'' \<notin> set f \<Longrightarrow> isImageFile f = (toLowerCase f \<in> set SUPPORTED_IMAGE_EXTENSIONS)"
  by (auto simp: isImageFile_def split_on_no_sep Let_def SUPPORTED_IMAGE_EXTENSIONS_def)

text \<open>
  Claim C10. \<open>isImageFile\<close> is meant to look at the characters after the last dot only, and to
  answer no for a path without a dot. The two lemmas above give what the code computes: the
  text after the last dot when there is one, and the whole path when there is none. So the path
  \<open>png\<close>, which has no dot, is taken for an image; \<open>IMG.PNG\<close> is an image, \<open>image.tiff\<close> and
  \<open>noext\<close> are not.
\<close>

theorem isImageFile_dotless_name:
  "CHR ''.'' \<notin> set ''png'' \<and> isImageFile ''png'' \<and> isImageFile ''IMG.PNG''
     \<and> \<not> isImageFile ''image.tiff'' \<and> \<not> isImageFile ''noext''"
  by (simp add: isImageFile_def toLowerCase_def toLowerCase_char_def SUPPORTED_IMAGE_EXTENSIONS_def)

section \<open>Relative paths\<close>

lemma commonLength_loop_eq:
  "commonLength_loop n fp tp = n + length (longest_common_prefix (drop n fp) (drop n tp))"
proof (induction n fp tp rule: commonLength_loop.induct)
  case (1 n fp tp)
  show ?case
  proof (cases "n < length fp \<and> n < length tp \<and> fp ! n = tp ! n")
    case True
    then have "drop n fp = fp ! n # drop (Suc n) fp" "drop n tp = fp ! n # drop (Suc n) tp"
      by (metis Cons_nth_drop_Suc)+
    with True 1 show ?thesis
      by (subst commonLength_loop.simps) simp
  next
    case False
    have "longest_common_prefix (drop n fp) (drop n tp) = []"
    proof (cases "n < length fp \<and> n < length tp")
      case True
      with False have neq: "fp ! n \<noteq> tp ! n" by simp
      from True have "drop n fp = fp ! n # drop (Suc n) fp" "drop n tp = tp ! n # drop (Suc n) tp"
        by (simp_all add: Cons_nth_drop_Suc)
      with neq show ?thesis by simp
    next
      case False
      then have "drop n fp = [] \<or> drop n tp = []" by auto
      then show ?thesis by auto
    qed
    with False show ?thesis
      by (subst commonLength_loop.simps) auto
  qed
qed

lemma prefix_iff_lcp_length:
  "prefix xs ys \<longleftrightarrow> length (longest_common_prefix xs ys) = length xs"
  by (induction xs ys rule: longest_common_prefix.induct) auto

lemma getRelativePath_eq:
  "getRelativePath fromFolder toPath =
     (let fromParts = path_parts fromFolder;
          toParts = path_parts toPath;
          common = longest_common_prefix fromParts toParts
      in (if prefix fromParts toParts then ''./''
          else repeat ''../'' (length fromParts - length common))
         @ join ''/'' (drop (length common) toParts))"
proof -
  have "length (longest_common_prefix (path_parts fromFolder) (path_parts toPath))
          \<le> length (path_parts fromFolder)"
    by (metis longest_common_prefix_prefix1 prefix_length_le)
  then show ?thesis
    by (auto simp: getRelativePath_def Let_def commonLength_loop_eq prefix_iff_lcp_length)
qed

section \<open>Deleting orphans\<close>

lemma map_of_filter_neq:
  "map_of (filter (\<lambda>(q, f). q \<noteq> p) xs) r = (if r = p then None else map_of xs r)"
  by (induction xs) auto

lemma is_TFile_after_delete:
  "vault_delete h p = Inr h' \<Longrightarrow> is_TFile h' r = (r \<noteq> p \<and> is_TFile h r)"
  by (auto simp: vault_delete_def is_TFile_def getAbstractFileByPath_def map_of_filter_neq
           split: if_splits)

lemma throws_after_delete:
  "vault_delete h p = Inr h' \<Longrightarrow> throws h' = throws h"
  by (auto simp: vault_delete_def split: if_splits)

lemma finite_deletable [simp]: "finite (deletable h paths)"
  by (simp add: deletable_def)

lemma deletable_Cons_skip:
  "\<not> (is_TFile h p \<and> \<not> throws h Delete p) \<Longrightarrow> deletable h (p # ps) = deletable h ps"
  by (auto simp: deletable_def)

lemma deletable_after_delete:
  "vault_delete h p = Inr h' \<Longrightarrow> deletable h' ps = deletable h ps - {p}"
  by (auto simp: deletable_def is_TFile_after_delete throws_after_delete)

lemma deletable_Cons_hit:
  "is_TFile h p \<Longrightarrow> \<not> throws h Delete p \<Longrightarrow> deletable h (p # ps) = insert p (deletable h ps)"
  by (auto simp: deletable_def)

lemma filter_filter_vault:
  "filter (\<lambda>(q, f). q \<notin> D - {p}) (filter (\<lambda>(q, f). q \<noteq> p) xs)
     = filter (\<lambda>(q, f). q \<notin> insert p D) xs"
  by (induction xs) auto

lemma deleteOrphanImages_loop_eq:
  "deleteOrphanImages_loop paths h s n =
     (h\<lparr>vault := filter (\<lambda>(q, f). q \<notin> deletable h paths) (vault h)\<rparr>,
      s - deletable h paths, n + card (deletable h paths))"
proof (induction paths arbitrary: h s n)
  case Nil
  then show ?case by (simp add: deletable_def)
next
  case (Cons p ps)
  show ?case
  proof (cases "is_TFile h p \<and> \<not> throws h Delete p")
    case False
    then show ?thesis
      using Cons.IH [of h s n]
      by (auto simp: deletable_Cons_skip vault_delete_def)
  next
    case True
    define h' where "h' = h\<lparr>vault := filter (\<lambda>(q, f). q \<noteq> p) (vault h)\<rparr>"
    have del: "vault_delete h p = Inr h'"
      using True by (simp add: vault_delete_def h'_def)
    have D: "deletable h' ps = deletable h ps - {p}"
      by (rule deletable_after_delete [OF del])
    have card: "Suc n + card (deletable h ps - {p}) = n + card (insert p (deletable h ps))"
    proof (cases "p \<in> deletable h ps")
      case True
      then have "Suc (card (deletable h ps - {p})) = card (deletable h ps)"
        by (intro card_Suc_Diff1) simp_all
      with True show ?thesis by (simp add: insert_absorb)
    next
      case False
      then show ?thesis by simp
    qed
    have "deleteOrphanImages_loop (p # ps) h s n = deleteOrphanImages_loop ps h' (s - {p}) (Suc n)"
      using True del by simp
    also have "\<dots> = (h'\<lparr>vault := filter (\<lambda>(q, f). q \<notin> deletable h' ps) (vault h')\<rparr>,
                      s - {p} - deletable h' ps, Suc n + card (deletable h' ps))"
      by (rule Cons.IH)
    also have "\<dots> = (h\<lparr>vault := filter (\<lambda>(q, f). q \<notin> deletable h (p # ps)) (vault h)\<rparr>,
                      s - deletable h (p # ps), n + card (deletable h (p # ps)))"
    proof -
      have v: "filter (\<lambda>(q, f). q \<notin> deletable h ps - {p}) (vault h')
                 = filter (\<lambda>(q, f). q \<notin> insert p (deletable h ps)) (vault h)"
        using filter_filter_vault [of "deletable h ps" p "vault h"] by (simp add: h'_def)
      have s: "s - {p} - (deletable h ps - {p}) = s - insert p (deletable h ps)"
        by auto
      have r: "h'\<lparr>vault := xs\<rparr> = h\<lparr>vault := xs\<rparr>" for xs
        by (simp add: h'_def)
      show ?thesis
        unfolding D v s card r using True by (simp add: deletable_Cons_hit)
    qed
    finally show ?thesis .
  qed
qed

text \<open>
  Claim C7. \<open>deleteOrphanImages\<close> deletes exactly the given paths that resolve to a file and whose
  delete does not throw; neither the orphan set nor the resolved links are consulted. It returns
  the number of files deleted and takes exactly those paths out of the orphan set; every other
  path, missing or failing, is skipped and changes nothing.
\<close>

theorem deleteOrphanImages_best_effort:
  "deleteOrphanImages h orphanImages imagePaths =
     (let deleted = set (filter (\<lambda>p. is_TFile h p \<and> \<not> throws h Delete p) imagePaths)
      in (h\<lparr>vault := filter (\<lambda>(q, f). q \<notin> deleted) (vault h)\<rparr>,
          orphanImages - deleted,
          card deleted))"
  by (simp add: deleteOrphanImages_def deleteOrphanImages_loop_eq deletable_def Let_def)

text \<open>
  The bulk delete of the specification's test list: three paths, one of them missing on disk.
\<close>

theorem deleteOrphanImages_partial_failure:
  "deleteOrphanImages
     \<lparr>vault = [(''a/x.png'', TFile 1 ''X''), (''n.md'', TFile 1 ''text''), (''b/y.png'', TFile 2 ''Y'')],
      resolvedLinks = [], linkpathDest = (\<lambda>l s. None), throws = (\<lambda>op p. False), modified = []\<rparr>
     {''a/x.png'', ''b/y.png''} [''a/x.png'', ''gone.png'', ''b/y.png'']
   = (\<lparr>vault = [(''n.md'', TFile 1 ''text'')],
      resolvedLinks = [], linkpathDest = (\<lambda>l s. None), throws = (\<lambda>op p. False), modified = []\<rparr>,
      {}, 2)"
  by (simp add: deleteOrphanImages_best_effort is_TFile_def getAbstractFileByPath_def)

section \<open>Orphan scan\<close>

lemma scan_loop_eq:
  "scan_loop R imgs os S =
     (os @ filter (\<lambda>p. p \<notin> R) imgs, S \<union> set (filter (\<lambda>p. p \<notin> R) imgs))"
  by (induction imgs arbitrary: os S) auto

lemma resolvedLinks_rename:
  "vault_rename h p q = Inr h' \<Longrightarrow> resolvedLinks h' = resolvedLinks h"
  by (auto simp: vault_rename_def split: option.splits if_splits)

lemma resolvedLinks_createFolder:
  "vault_createFolder h p = Inr h' \<Longrightarrow> resolvedLinks h' = resolvedLinks h"
  by (auto simp: vault_createFolder_def split: if_splits)

lemma resolvedLinks_ensureFolderExists:
  "ensureFolderExists np h p = Inr h' \<Longrightarrow> resolvedLinks h' = resolvedLinks h"
  by (auto simp: ensureFolderExists_def Let_def resolvedLinks_createFolder
           split: if_splits option.splits)

lemma resolvedLinks_moveOrphans_loop:
  "moveOrphans_loop np t ps h n = Some (h', n') \<Longrightarrow> resolvedLinks h' = resolvedLinks h"
proof (induction ps arbitrary: h n)
  case Nil
  then show ?case by simp
next
  case (Cons p ps)
  show ?case
  proof (cases "is_TFile h p")
    case False
    with Cons show ?thesis by simp
  next
    case True
    with Cons.prems obtain finalPath where
      step: "(case vault_rename h p finalPath of
                Inr h1 \<Rightarrow> moveOrphans_loop np t ps h1 (Suc n)
              | Inl e \<Rightarrow> moveOrphans_loop np t ps h n) = Some (h', n')"
      by (auto simp: Let_def split: option.splits)
    show ?thesis
    proof (cases "vault_rename h p finalPath")
      case (Inl e)
      with step Cons.IH show ?thesis by simp
    next
      case (Inr h1)
      with step have "moveOrphans_loop np t ps h1 (Suc n) = Some (h', n')" by simp
      then have "resolvedLinks h' = resolvedLinks h1" by (rule Cons.IH)
      with Inr show ?thesis by (simp add: resolvedLinks_rename)
    qed
  qed
qed

lemma resolvedLinks_moveOrphansToFolder:
  "moveOrphansToFolder np st h ps = Some (h', r) \<Longrightarrow> resolvedLinks h' = resolvedLinks h"
  by (auto simp: moveOrphansToFolder_def Let_def split: sum.splits option.splits)
     (metis resolvedLinks_ensureFolderExists resolvedLinks_moveOrphans_loop)

lemma scanOrphanImages_result:
  assumes "scanOrphanImages np st h s0 = Some (h', s', r)"
  shows "resolvedLinks h' = resolvedLinks h"
    and "s' = set (filter (\<lambda>p. p \<notin> getAllReferencedImages h) (filter isImageFile (getFiles h)))"
  using assms
  by (auto simp: scanOrphanImages_def Let_def scan_loop_eq
           dest: resolvedLinks_moveOrphansToFolder
           split: if_splits option.splits sum.splits prod.splits)

lemma prototype_property_not_image:
  "p \<in> set Object_prototype_properties \<Longrightarrow> \<not> isImageFile p"
  by (auto simp: Object_prototype_properties_def isImageFile_def toLowerCase_def
                 toLowerCase_char_def SUPPORTED_IMAGE_EXTENSIONS_def)

lemma in_object_image:
  "isImageFile p \<Longrightarrow> in_object p links = (p \<in> set (map fst links))"
  using prototype_property_not_image by (auto simp: in_object_def)

lemma referenced_image_iff:
  "isImageFile p \<Longrightarrow>
     p \<in> getAllReferencedImages h
       \<longleftrightarrow> list_ex (\<lambda>(notePath, links). p \<in> set (map fst links)) (resolvedLinks h)"
  by (auto simp: getAllReferencedImages_def list_ex_iff)

lemma isOrphan_image:
  "isImageFile p \<Longrightarrow>
     fst (isOrphan h s p)
       = (p \<in> s \<or> \<not> list_ex (\<lambda>(notePath, links). p \<in> set (map fst links)) (resolvedLinks h))"
  by (auto simp: isOrphan_def in_object_image list_ex_iff)

text \<open>
  Claim C1. After a scan that returned, with the resolved links as the scan left them, \<open>isOrphan\<close>
  answers yes for an image path exactly when no note links to it. The scan sets the orphan set
  to the unreferenced images of the vault, whatever the set held before, and this also holds
  when the scan has moved the orphans to the orphan folder.
\<close>

theorem scan_then_isOrphan:
  assumes "scanOrphanImages normalizePath st h orphanImages0 = Some (h', orphanImages, r)"
    and "isImageFile p"
  shows "fst (isOrphan h' orphanImages p)
           = (\<not> list_ex (\<lambda>(notePath, links). p \<in> set (map fst links)) (resolvedLinks h'))
         \<and> orphanImages
           = set (filter (\<lambda>q. q \<notin> getAllReferencedImages h) (filter isImageFile (getFiles h)))"
proof -
  note res = scanOrphanImages_result [OF assms(1)]
  have "p \<in> orphanImages \<Longrightarrow> p \<notin> getAllReferencedImages h"
    by (simp add: res(2))
  then show ?thesis
    using assms(2) res by (auto simp: isOrphan_image referenced_image_iff)
qed

theorem scan_then_isOrphan_moved:
  "scanOrphanImages (\<lambda>p. p) \<lparr>orphanHandling = moveToFolder, orphanFolder = ''_orphaned''\<rparr>
      \<lparr>vault = [(''a/x.png'', TFile 1 ''X''), (''n.md'', TFile 1 ''![[a/x.png]]''),
                (''b/y.png'', TFile 2 ''Y'')],
       resolvedLinks = [(''n.md'', [(''a/x.png'', 1)])],
       linkpathDest = (\<lambda>l s. None), throws = (\<lambda>op p. False), modified = []\<rparr>
      {''stale.png''}
    = Some (\<lparr>vault = [(''a/x.png'', TFile 1 ''X''), (''n.md'', TFile 1 ''![[a/x.png]]''),
                      (''_orphaned'', TFolder), (''_orphaned/y.png'', TFile 2 ''Y'')],
             resolvedLinks = [(''n.md'', [(''a/x.png'', 1)])],
             linkpathDest = (\<lambda>l s. None), throws = (\<lambda>op p. False), modified = []\<rparr>,
            {''b/y.png''}, Inr [''b/y.png''])
   \<and> isImageFile ''b/y.png''
   \<and> fst (isOrphan
        \<lparr>vault = [(''a/x.png'', TFile 1 ''X''), (''n.md'', TFile 1 ''![[a/x.png]]''),
                  (''_orphaned'', TFolder), (''_orphaned/y.png'', TFile 2 ''Y'')],
         resolvedLinks = [(''n.md'', [(''a/x.png'', 1)])],
         linkpathDest = (\<lambda>l s. None), throws = (\<lambda>op p. False), modified = []\<rparr>
        {''b/y.png''} ''b/y.png'')
       = (\<not> list_ex (\<lambda>(notePath, links). ''b/y.png'' \<in> set (map fst links))
              [(''n.md'', [(''a/x.png'', 1::nat)])])"
proof -
  have img: "isImageFile ''a/x.png''" "isImageFile ''b/y.png''" "\<not> isImageFile ''n.md''"
    by (simp_all add: isImageFile_def toLowerCase_def toLowerCase_char_def
                      SUPPORTED_IMAGE_EXTENSIONS_def)
  have run: "scanOrphanImages (\<lambda>p. p) \<lparr>orphanHandling = moveToFolder, orphanFolder = ''_orphaned''\<rparr>
      \<lparr>vault = [(''a/x.png'', TFile 1 ''X''), (''n.md'', TFile 1 ''![[a/x.png]]''),
                (''b/y.png'', TFile 2 ''Y'')],
       resolvedLinks = [(''n.md'', [(''a/x.png'', 1)])],
       linkpathDest = (\<lambda>l s. None), throws = (\<lambda>op p. False), modified = []\<rparr>
      {''stale.png''}
    = Some (\<lparr>vault = [(''a/x.png'', TFile 1 ''X''), (''n.md'', TFile 1 ''![[a/x.png]]''),
                      (''_orphaned'', TFolder), (''_orphaned/y.png'', TFile 2 ''Y'')],
             resolvedLinks = [(''n.md'', [(''a/x.png'', 1)])],
             linkpathDest = (\<lambda>l s. None), throws = (\<lambda>op p. False), modified = []\<rparr>,
            {''b/y.png''}, Inr [''b/y.png''])"
    by (simp add: scanOrphanImages_def getFiles_def img getAllReferencedImages_def
          moveOrphansToFolder_def ensureFolderExists_def getAbstractFileByPath_def
          vault_createFolder_def adapter_exists_def is_TFile_def file_name_def
          strip_extension_def free_path.simps vault_rename_def)
  have "fst (isOrphan
        \<lparr>vault = [(''a/x.png'', TFile 1 ''X''), (''n.md'', TFile 1 ''![[a/x.png]]''),
                  (''_orphaned'', TFolder), (''_orphaned/y.png'', TFile 2 ''Y'')],
         resolvedLinks = [(''n.md'', [(''a/x.png'', 1)])],
         linkpathDest = (\<lambda>l s. None), throws = (\<lambda>op p. False), modified = []\<rparr>
        {''b/y.png''} ''b/y.png'')
       = (\<not> list_ex (\<lambda>(notePath, links). ''b/y.png'' \<in> set (map fst links))
              [(''n.md'', [(''a/x.png'', 1::nat)])])"
    using scan_then_isOrphan [OF run img(2), THEN conjunct1] by simp
  with run img(2) show ?thesis
    by blast
qed

section \<open>Hashes and duplicates\<close>

text \<open>
  Claim C4. A cached entry whose stored modification time differs from the file's must not be
  used. \<open>calculateHash\<close> checks the time and hashes the current bytes. The cache loop of
  \<open>findDuplicate\<close> compares the stored digests without looking at the time: with \<open>a.png\<close>
  cached at time 1 for its old bytes and now holding new bytes at time 2, looking for a duplicate
  of the old bytes returns \<open>a.png\<close>, and nothing is recomputed.
\<close>

theorem findDuplicate_stale_digest:
  "findDuplicate sha256hex
     \<lparr>vault = [(''a.png'', TFile 2 ''new bytes'')], resolvedLinks = [],
      linkpathDest = (\<lambda>l s. None), throws = (\<lambda>op p. False), modified = []\<rparr>
     [(''a.png'', \<lparr>hash = computeHash sha256hex ''old bytes'', mtime = 1\<rparr>)] ''old bytes''
   = ([(''a.png'', \<lparr>hash = computeHash sha256hex ''old bytes'', mtime = 1\<rparr>)], Inr (Some ''a.png''))
   \<and> calculateHash sha256hex
     \<lparr>vault = [(''a.png'', TFile 2 ''new bytes'')], resolvedLinks = [],
      linkpathDest = (\<lambda>l s. None), throws = (\<lambda>op p. False), modified = []\<rparr>
     [(''a.png'', \<lparr>hash = computeHash sha256hex ''old bytes'', mtime = 1\<rparr>)] ''a.png'' 2
   = ([(''a.png'', \<lparr>hash = computeHash sha256hex ''new bytes'', mtime = 2\<rparr>)],
      Inr (computeHash sha256hex ''new bytes''))"
  by (simp add: findDuplicate_def calculateHashFromBuffer_def is_TFile_def getAbstractFileByPath_def
        calculateHash_def calculateHash_new_def cache_get_def vault_readBinary_def Let_def)

lemma calculateHash_stale:
  "cache_get cache p = Some cached \<Longrightarrow> mtime cached \<noteq> m \<Longrightarrow> vault_readBinary h p = Inr data \<Longrightarrow>
     snd (calculateHash sha h cache p m) = Inr (computeHash sha data)"
  by (simp add: calculateHash_def calculateHash_new_def Let_def)

lemma filter_cache_delete:
  "filter (\<lambda>(q, e). q \<notin> P) (cache_delete cache p) = filter (\<lambda>(q, e). q \<notin> insert p P) cache"
  by (induction cache) (auto simp: cache_delete_def)

lemma findDuplicate_cached_eq:
  "findDuplicate_cached h nh es cache =
     (filter (\<lambda>(q, e). q \<notin> purged_paths h nh es) cache,
      map_option fst (find (\<lambda>(p, e). hash e = nh \<and> is_TFile h p) es))"
proof (induction es arbitrary: cache)
  case Nil
  then show ?case by (simp add: purged_paths_def)
next
  case (Cons a es)
  obtain p e where a: "a = (p, e)" by (cases a)
  show ?case
  proof (cases "hash e = nh")
    case False
    then show ?thesis using Cons.IH [of cache] by (simp add: a purged_paths_def)
  next
    case True
    show ?thesis
    proof (cases "is_TFile h p")
      case t: True
      with True show ?thesis by (simp add: a purged_paths_def)
    next
      case f: False
      have "purged_paths h nh ((p, e) # es) = insert p (purged_paths h nh es)"
        using True f by (simp add: purged_paths_def)
      with True f show ?thesis
        using Cons.IH [of "cache_delete cache p"] by (simp add: a filter_cache_delete)
    qed
  qed
qed

lemma purged_paths_stale:
  "q \<in> purged_paths h nh cache \<Longrightarrow>
     \<not> is_TFile h q \<and> (\<exists>e. (q, e) \<in> set cache \<and> hash e = nh)"
proof -
  assume "q \<in> purged_paths h nh cache"
  then obtain e where
    e: "(q, e) \<in> set (takeWhile (\<lambda>(p, e). \<not> (hash e = nh \<and> is_TFile h p)) cache)"
    and m: "hash e = nh"
    by (auto simp: purged_paths_def)
  from set_takeWhileD [OF e] m show ?thesis by auto
qed

lemma cache_get_filter:
  "cache_get (filter (\<lambda>(q, e). q \<notin> P) cache) p = (if p \<in> P then None else cache_get cache p)"
  by (induction cache) (auto simp: cache_get_def)

lemma getFiles_list_is_file:
  "distinct (map fst v) \<Longrightarrow> p \<in> set (getFiles_list v) \<Longrightarrow> \<exists>m c. map_of v p = Some (TFile m c)"
proof (induction v rule: getFiles_list.induct)
  case 1
  then show ?case by simp
next
  case (2 q m c rest)
  then show ?case by (auto simp: rev_image_eqI)
next
  case (3 q rest)
  then show ?case by (auto simp: rev_image_eqI)
qed

lemma getFiles_is_TFile:
  "distinct (map fst (vault h)) \<Longrightarrow> p \<in> set (getFiles h) \<Longrightarrow> is_TFile h p"
  using getFiles_list_is_file [of "vault h" p]
  by (auto simp: getFiles_def is_TFile_def getAbstractFileByPath_def)


lemma getFiles_list_subset: "set (getFiles_list v) \<subseteq> fst ` set v"
  by (induction v rule: getFiles_list.induct) auto

lemma getFiles_list_distinct: "distinct (map fst v) \<Longrightarrow> distinct (getFiles_list v)"
proof (induction v rule: getFiles_list.induct)
  case 1
  then show ?case by simp
next
  case (2 p m c rest)
  then show ?case using getFiles_list_subset [of rest] by auto
next
  case (3 p rest)
  then show ?case by simp
qed

lemma cache_set_absent: "cache_get cache p = None \<Longrightarrow> cache_set cache p e = cache @ [(p, e)]"
proof (induction cache)
  case Nil
  then show ?case by simp
next
  case (Cons a cache)
  obtain q old where a: "a = (q, old)" by (cases a)
  from Cons.prems have "q \<noteq> p" "cache_get cache p = None"
    by (auto simp: a cache_get_def split: if_splits)
  with Cons.IH show ?case by (simp add: a)
qed

lemma vault_readBinary_file:
  "is_TFile h p \<Longrightarrow>
     vault_readBinary h p =
       (if throws h ReadBinary p then Inl (Thrown ReadBinary p) else Inr (file_contents h p))"
  by (auto simp: is_TFile_def vault_readBinary_def file_contents_def
           split: option.splits abstract_file.splits)

lemma findDuplicate_vault_closed:
  fixes sha h nh
  defines "stop \<equiv> (\<lambda>p. throws h ReadBinary p \<or> computeHash sha (file_contents h p) = nh)"
    and "entry \<equiv> (\<lambda>p. (p, \<lparr>hash = computeHash sha (file_contents h p),
                               mtime = file_stat_mtime h p\<rparr>))"
  assumes "\<forall>p \<in> set imgs. is_TFile h p" and "distinct imgs"
  shows "findDuplicate_vault sha h nh imgs cache =
           (case find stop (filter (\<lambda>p. cache_get cache p = None) imgs) of
              None \<Rightarrow> (cache @ map entry (filter (\<lambda>p. cache_get cache p = None) imgs), Inr None)
            | Some p \<Rightarrow>
                if throws h ReadBinary p
                then (cache @ map entry (takeWhile (\<lambda>q. \<not> stop q)
                                (filter (\<lambda>p. cache_get cache p = None) imgs)),
                      Inl (Thrown ReadBinary p))
                else (cache @ map entry (takeWhile (\<lambda>q. \<not> stop q)
                                (filter (\<lambda>p. cache_get cache p = None) imgs) @ [p]),
                      Inr (Some p)))"
  using assms(3,4)
proof (induction imgs arbitrary: cache)
  case Nil
  then show ?case by simp
next
  case (Cons p ps)
  then have isfile: "is_TFile h p" and rest: "\<forall>q \<in> set ps. is_TFile h q"
    and notin: "p \<notin> set ps" and dist: "distinct ps"
    by simp_all
  show ?case
  proof (cases "cache_get cache p = None")
    case False
    then have f1: "filter (\<lambda>p. cache_get cache p = None) (p # ps)
                 = filter (\<lambda>p. cache_get cache p = None) ps"
      by simp
    from False have f2: "findDuplicate_vault sha h nh (p # ps) cache
                 = findDuplicate_vault sha h nh ps cache"
      by auto
    show ?thesis unfolding f1 f2 by (rule Cons.IH [OF rest dist])
  next
    case True
    note rd = vault_readBinary_file [OF isfile]
    have fl: "filter (\<lambda>p. cache_get cache p = None) (p # ps)
                 = p # filter (\<lambda>p. cache_get cache p = None) ps"
      using True by simp
    show ?thesis
    proof (cases "throws h ReadBinary p")
      case t: True
      then have sp: "stop p" by (simp add: stop_def)
      have step: "findDuplicate_vault sha h nh (p # ps) cache = (cache, Inl (Thrown ReadBinary p))"
        using True rd t by (simp add: calculateHash_def calculateHash_new_def Let_def)
      show ?thesis unfolding step fl using sp t by simp
    next
      case nt: False
      have ch: "calculateHash sha h cache p (file_stat_mtime h p)
                  = (cache @ [entry p], Inr (computeHash sha (file_contents h p)))"
        using True rd nt
        by (simp add: calculateHash_def calculateHash_new_def Let_def cache_set_absent entry_def)
      show ?thesis
      proof (cases "computeHash sha (file_contents h p) = nh")
        case eq: True
        then have sp: "stop p" by (simp add: stop_def)
        have step: "findDuplicate_vault sha h nh (p # ps) cache = (cache @ [entry p], Inr (Some p))"
          using True ch eq by simp
        show ?thesis unfolding step fl using sp nt by simp
      next
        case neq: False
        with nt have ns: "\<not> stop p" by (simp add: stop_def)
        have get: "\<forall>q \<in> set ps. cache_get (cache @ [entry p]) q = cache_get cache q"
          using notin by (auto simp: cache_get_def map_add_def entry_def split: option.splits)
        then have f: "filter (\<lambda>q. cache_get (cache @ [entry p]) q = None) ps
                      = filter (\<lambda>q. cache_get cache q = None) ps"
          by (intro filter_cong) auto
        have step: "findDuplicate_vault sha h nh (p # ps) cache
                      = findDuplicate_vault sha h nh ps (cache @ [entry p])"
          using True ch neq by simp
        show ?thesis
          unfolding step fl
          using ns Cons.IH [OF rest dist, of "cache @ [entry p]"]
          by (simp add: f split: option.splits)
      qed
    qed
  qed
qed

lemma purged_paths_no_hit:
  assumes "find (\<lambda>(p, e). hash e = nh \<and> is_TFile h p) cache = None"
  shows "purged_paths h nh cache = {q. \<exists>e. (q, e) \<in> set cache \<and> hash e = nh}"
proof -
  from assms have "\<forall>x \<in> set cache. \<not> (case x of (p, e) \<Rightarrow> hash e = nh \<and> is_TFile h p)"
    by (auto simp: find_None_iff)
  then have "takeWhile (\<lambda>(p, e). \<not> (hash e = nh \<and> is_TFile h p)) cache = cache"
    by (intro takeWhile_eq_all_conv [THEN iffD2]) auto
  then have "purged_paths h nh cache = set (map fst (filter (\<lambda>(p, e). hash e = nh) cache))"
    by (simp only: purged_paths_def)
  also have "\<dots> = {q. \<exists>e. (q, e) \<in> set cache \<and> hash e = nh}"
    by force
  finally show ?thesis .
qed

lemma findDuplicate_eq:
  fixes sha h data cache
  defines "nh \<equiv> computeHash sha data"
  defines "stop \<equiv> (\<lambda>p. throws h ReadBinary p \<or> computeHash sha (file_contents h p) = nh)"
    and "entry \<equiv> (\<lambda>p. (p, \<lparr>hash = computeHash sha (file_contents h p),
                               mtime = file_stat_mtime h p\<rparr>))"
    and "c1 \<equiv> filter (\<lambda>(q, e). q \<notin> purged_paths h nh cache) cache"
    and "cands \<equiv> filter (\<lambda>p. cache_get cache p = None) (filter isImageFile (getFiles h))"
  assumes "distinct (map fst (vault h))"
  shows "findDuplicate sha h cache data =
           (case find (\<lambda>(p, e). hash e = nh \<and> is_TFile h p) cache of
              Some (p, e) \<Rightarrow> (c1, Inr (Some p))
            | None \<Rightarrow>
                (case find stop cands of
                   None \<Rightarrow> (c1 @ map entry cands, Inr None)
                 | Some p \<Rightarrow>
                     if throws h ReadBinary p
                     then (c1 @ map entry (takeWhile (\<lambda>q. \<not> stop q) cands),
                           Inl (Thrown ReadBinary p))
                     else (c1 @ map entry (takeWhile (\<lambda>q. \<not> stop q) cands @ [p]),
                           Inr (Some p))))"
proof -
  let ?hit = "find (\<lambda>(p, e). hash e = nh \<and> is_TFile h p) cache"
  let ?imgs = "filter isImageFile (getFiles h)"
  have files: "\<forall>p \<in> set ?imgs. is_TFile h p"
    using getFiles_is_TFile [OF assms(6)] by simp
  have dist: "distinct ?imgs"
    using getFiles_list_distinct [OF assms(6)] by (simp add: getFiles_def)
  have cached: "findDuplicate_cached h nh cache cache = (c1, map_option fst ?hit)"
    unfolding c1_def by (rule findDuplicate_cached_eq)
  have cands: "filter (\<lambda>p. cache_get c1 p = None) ?imgs = cands"
    unfolding cands_def
  proof (intro filter_cong refl)
    fix p assume "p \<in> set ?imgs"
    with files have "is_TFile h p" by blast
    then have "p \<notin> purged_paths h nh cache" using purged_paths_stale by blast
    then show "(cache_get c1 p = None) = (cache_get cache p = None)"
      by (simp add: cache_get_filter c1_def)
  qed
  have fd: "findDuplicate sha h cache data =
              (case ?hit of Some (p, e) \<Rightarrow> (c1, Inr (Some p))
               | None \<Rightarrow> findDuplicate_vault sha h nh ?imgs c1)"
    by (simp add: findDuplicate_def calculateHashFromBuffer_def cached Let_def nh_def [symmetric]
             split: option.splits)
  show ?thesis
    unfolding fd
    using findDuplicate_vault_closed [OF files dist, of sha nh c1]
    by (simp only: cands stop_def entry_def)
qed

text \<open>
  Claim C6, as the code has it. Take a vault whose paths are distinct and a cache in which every
  entry of an existing file holds the digest of the file's bytes. Then \<open>findDuplicate\<close> returns
  the first cached path, in cache order, whose file exists and has the input's digest; without
  one, it reads the images that are not in the cache, in vault order, and returns the first
  with the input's digest, or the error of a read that throws before that; without either,
  nothing. The entries with the input's digest whose path does not resolve to a file and that
  come before the hit (\<open>purged_paths\<close>; all such entries when the cache has no hit) are deleted:
  their paths are not in the cache afterwards, while every other entry stays, in its place, in
  front of the entries that the search adds. When no read throws and some image has the input's
  bytes, the search returns an existing file with the input's digest, whatever the cache holds.
\<close>

theorem findDuplicate_search:
  assumes "distinct (map fst (vault h))"
    and "\<forall>(p, e) \<in> set cache. is_TFile h p \<longrightarrow> hash e = computeHash sha256hex (file_contents h p)"
  shows "snd (findDuplicate sha256hex h cache data) =
           (case find (\<lambda>(p, e). is_TFile h p
                          \<and> computeHash sha256hex (file_contents h p) = computeHash sha256hex data)
                   cache of
              Some (p, e) \<Rightarrow> Inr (Some p)
            | None \<Rightarrow>
                (case find (\<lambda>p. throws h ReadBinary p
                              \<or> computeHash sha256hex (file_contents h p) = computeHash sha256hex data)
                        (filter (\<lambda>p. cache_get cache p = None)
                           (filter isImageFile (getFiles h))) of
                   None \<Rightarrow> Inr None
                 | Some p \<Rightarrow>
                     if throws h ReadBinary p then Inl (Thrown ReadBinary p) else Inr (Some p)))
         \<and> prefix (filter (\<lambda>(q, e). q \<notin> purged_paths h (computeHash sha256hex data) cache) cache)
                  (fst (findDuplicate sha256hex h cache data))
         \<and> (\<forall>q \<in> purged_paths h (computeHash sha256hex data) cache.
                q \<notin> fst ` set (fst (findDuplicate sha256hex h cache data))
                \<and> \<not> is_TFile h q
                \<and> (\<exists>e. (q, e) \<in> set cache \<and> hash e = computeHash sha256hex data))
         \<and> (find (\<lambda>(p, e). is_TFile h p
                      \<and> computeHash sha256hex (file_contents h p) = computeHash sha256hex data)
               cache = None \<longrightarrow>
              purged_paths h (computeHash sha256hex data) cache
                = {q. \<exists>e. (q, e) \<in> set cache \<and> hash e = computeHash sha256hex data})
         \<and> ((\<forall>p. \<not> throws h ReadBinary p) \<longrightarrow>
              (\<exists>p \<in> set (filter isImageFile (getFiles h)). file_contents h p = data) \<longrightarrow>
              (\<exists>q. snd (findDuplicate sha256hex h cache data) = Inr (Some q) \<and> is_TFile h q
                   \<and> computeHash sha256hex (file_contents h q) = computeHash sha256hex data))"
proof -
  define nh where "nh = computeHash sha256hex data"
  define stop where
    "stop = (\<lambda>p. throws h ReadBinary p \<or> computeHash sha256hex (file_contents h p) = nh)"
  define entry where
    "entry = (\<lambda>p. (p, \<lparr>hash = computeHash sha256hex (file_contents h p),
                         mtime = file_stat_mtime h p\<rparr>))"
  define c1 where "c1 = filter (\<lambda>(q, e). q \<notin> purged_paths h nh cache) cache"
  define imgs where "imgs = filter isImageFile (getFiles h)"
  define cands where "cands = filter (\<lambda>p. cache_get cache p = None) imgs"
  define live where
    "live = (\<lambda>(p, e :: HashCacheEntry). is_TFile h p \<and> computeHash sha256hex (file_contents h p) = nh)"
  have files: "\<forall>p \<in> set imgs. is_TFile h p"
    using getFiles_is_TFile [OF assms(1)] by (simp add: imgs_def)
  have hit_eq: "find (\<lambda>(p, e). hash e = nh \<and> is_TFile h p) cache = find live cache"
    using assms(2) by (intro find_cong refl) (auto simp: live_def nh_def)
  have ns: "(\<lambda>q. \<not> (throws h ReadBinary q \<or> computeHash sha256hex (file_contents h q) = nh))
              = (\<lambda>q. \<not> stop q)"
    by (simp add: stop_def)
  note eq = findDuplicate_eq [OF assms(1), of sha256hex cache data,
      folded nh_def, folded stop_def entry_def c1_def imgs_def, folded cands_def,
      unfolded hit_eq ns]
  have result: "snd (findDuplicate sha256hex h cache data) =
           (case find live cache of
              Some (p, e) \<Rightarrow> Inr (Some p)
            | None \<Rightarrow>
                (case find stop cands of
                   None \<Rightarrow> Inr None
                 | Some p \<Rightarrow>
                     if throws h ReadBinary p then Inl (Thrown ReadBinary p) else Inr (Some p)))"
    unfolding eq by (simp split: option.splits prod.splits)
  have "\<exists>ps. set ps \<subseteq> set cands \<and> fst (findDuplicate sha256hex h cache data) = c1 @ map entry ps"
  proof (cases "find live cache")
    case None
    show ?thesis
    proof (cases "find stop cands")
      case n: None
      with None eq show ?thesis by auto
    next
      case (Some p)
      then have p: "p \<in> set cands" by (auto simp: find_Some_iff)
      have tw: "set (takeWhile (\<lambda>q. \<not> stop q) cands) \<subseteq> set cands"
        by (auto dest: set_takeWhileD)
      show ?thesis
      proof (cases "throws h ReadBinary p")
        case True
        with None Some eq tw show ?thesis by auto
      next
        case False
        with None Some eq
        have "fst (findDuplicate sha256hex h cache data)
                = c1 @ map entry (takeWhile (\<lambda>q. \<not> stop q) cands @ [p])"
          by simp
        moreover have "set (takeWhile (\<lambda>q. \<not> stop q) cands @ [p]) \<subseteq> set cands"
          using tw p by simp
        ultimately show ?thesis by blast
      qed
    qed
  next
    case (Some a)
    then have "fst (findDuplicate sha256hex h cache data) = c1 @ map entry []"
      unfolding eq by (cases a) simp
    then show ?thesis by (intro exI [of _ "[]"]) simp
  qed
  then obtain ps where ps: "set ps \<subseteq> set cands"
    and final: "fst (findDuplicate sha256hex h cache data) = c1 @ map entry ps"
    by blast
  have pre: "prefix c1 (fst (findDuplicate sha256hex h cache data))"
    unfolding final by simp
  have purged: "\<forall>q \<in> purged_paths h nh cache.
                  q \<notin> fst ` set (fst (findDuplicate sha256hex h cache data))
                  \<and> \<not> is_TFile h q \<and> (\<exists>e. (q, e) \<in> set cache \<and> hash e = nh)"
  proof
    fix q assume q: "q \<in> purged_paths h nh cache"
    from purged_paths_stale [OF q] have dead: "\<not> is_TFile h q"
      and ent: "\<exists>e. (q, e) \<in> set cache \<and> hash e = nh"
      by simp_all
    from q have "q \<notin> fst ` set c1" by (auto simp: c1_def)
    moreover have "q \<notin> fst ` set (map entry ps)"
    proof
      assume "q \<in> fst ` set (map entry ps)"
      then have "q \<in> set ps" by (auto simp: entry_def)
      with ps have "q \<in> set imgs" by (auto simp: cands_def)
      with files dead show False by blast
    qed
    ultimately have "q \<notin> fst ` set (fst (findDuplicate sha256hex h cache data))"
      unfolding final by auto
    with dead ent show "q \<notin> fst ` set (fst (findDuplicate sha256hex h cache data))
                  \<and> \<not> is_TFile h q \<and> (\<exists>e. (q, e) \<in> set cache \<and> hash e = nh)"
      by blast
  qed
  have all: "find live cache = None \<longrightarrow>
               purged_paths h nh cache = {q. \<exists>e. (q, e) \<in> set cache \<and> hash e = nh}"
    using purged_paths_no_hit [of nh h cache] hit_eq by simp
  have complete: "(\<forall>p. \<not> throws h ReadBinary p) \<longrightarrow>
              (\<exists>p \<in> set imgs. file_contents h p = data) \<longrightarrow>
              (\<exists>q. snd (findDuplicate sha256hex h cache data) = Inr (Some q) \<and> is_TFile h q
                   \<and> computeHash sha256hex (file_contents h q) = nh)"
  proof (intro impI)
    assume nt: "\<forall>p. \<not> throws h ReadBinary p"
      and ex: "\<exists>p \<in> set imgs. file_contents h p = data"
    then obtain p where p: "p \<in> set imgs" and d: "file_contents h p = data" by blast
    from p files have pf: "is_TFile h p" by blast
    show "\<exists>q. snd (findDuplicate sha256hex h cache data) = Inr (Some q) \<and> is_TFile h q
                   \<and> computeHash sha256hex (file_contents h q) = nh"
    proof (cases "find live cache")
      case (Some a)
      obtain q e where a: "a = (q, e)" by (cases a)
      from Some have "live (q, e)" by (auto simp: find_Some_iff a)
      with Some result a show ?thesis by (simp add: live_def)
    next
      case None
      have "cache_get cache p = None"
      proof (rule ccontr)
        assume "cache_get cache p \<noteq> None"
        then obtain e where "map_of cache p = Some e" by (auto simp: cache_get_def)
        then have "(p, e) \<in> set cache" by (rule map_of_SomeD)
        moreover have "live (p, e)" using pf d by (simp add: live_def nh_def)
        ultimately show False using None by (auto simp: find_None_iff)
      qed
      with p have "p \<in> set cands" by (simp add: cands_def)
      moreover have "stop p" using d by (simp add: stop_def nh_def)
      ultimately obtain q where f: "find stop cands = Some q"
        by (cases "find stop cands") (auto simp: find_None_iff)
      then have "stop q" "q \<in> set cands" by (auto simp: find_Some_iff)
      with nt files have "computeHash sha256hex (file_contents h q) = nh" "is_TFile h q"
        by (auto simp: stop_def cands_def)
      with None f nt result show ?thesis by simp
    qed
  qed
  from result pre purged all complete show ?thesis
    unfolding nh_def stop_def c1_def imgs_def cands_def live_def by blast
qed

text \<open>
  Two images with the same bytes. With a cache that only holds an entry with their digest for a
  file that is gone, the entry is deleted and the scan of the vault finds the first image; with
  an empty cache the scan finds it as well.
\<close>

theorem findDuplicate_purges_and_scans:
  "distinct (map fst (vault
       \<lparr>vault = [(''n.md'', TFile 7 ''text''), (''a.png'', TFile 7 ''bytes''),
                 (''b.png'', TFile 2 ''bytes'')],
        resolvedLinks = [], linkpathDest = (\<lambda>l s. None), throws = (\<lambda>op p. False),
        modified = []\<rparr>))
   \<and> \<not> is_TFile
       \<lparr>vault = [(''n.md'', TFile 7 ''text''), (''a.png'', TFile 7 ''bytes''),
                 (''b.png'', TFile 2 ''bytes'')],
        resolvedLinks = [], linkpathDest = (\<lambda>l s. None), throws = (\<lambda>op p. False),
        modified = []\<rparr> ''gone.png''
   \<and> snd (findDuplicate (\<lambda>d. d)
       \<lparr>vault = [(''n.md'', TFile 7 ''text''), (''a.png'', TFile 7 ''bytes''),
                 (''b.png'', TFile 2 ''bytes'')],
        resolvedLinks = [], linkpathDest = (\<lambda>l s. None), throws = (\<lambda>op p. False),
        modified = []\<rparr>
       [(''gone.png'', \<lparr>hash = ''bytes'', mtime = 3\<rparr>)] ''bytes'') = Inr (Some ''a.png'')
   \<and> ''gone.png'' \<notin> fst ` set (fst (findDuplicate (\<lambda>d. d)
       \<lparr>vault = [(''n.md'', TFile 7 ''text''), (''a.png'', TFile 7 ''bytes''),
                 (''b.png'', TFile 2 ''bytes'')],
        resolvedLinks = [], linkpathDest = (\<lambda>l s. None), throws = (\<lambda>op p. False),
        modified = []\<rparr>
       [(''gone.png'', \<lparr>hash = ''bytes'', mtime = 3\<rparr>)] ''bytes''))
   \<and> snd (findDuplicate (\<lambda>d. d)
       \<lparr>vault = [(''n.md'', TFile 7 ''text''), (''a.png'', TFile 7 ''bytes''),
                 (''b.png'', TFile 2 ''bytes'')],
        resolvedLinks = [], linkpathDest = (\<lambda>l s. None), throws = (\<lambda>op p. False),
        modified = []\<rparr> [] ''bytes'') = Inr (Some ''a.png'')"
proof -
  let ?h = "\<lparr>vault = [(''n.md'', TFile 7 ''text''), (''a.png'', TFile 7 ''bytes''),
                 (''b.png'', TFile 2 ''bytes'')],
        resolvedLinks = [], linkpathDest = (\<lambda>l s. None), throws = (\<lambda>op p. False),
        modified = []\<rparr>"
  let ?c = "[(''gone.png'', \<lparr>hash = ''bytes'', mtime = 3\<rparr>)]"
  have d: "distinct (map fst (vault ?h))" by simp
  have cur: "\<forall>(p, e) \<in> set ?c. is_TFile ?h p \<longrightarrow> hash e = computeHash (\<lambda>d. d) (file_contents ?h p)"
    by (simp add: is_TFile_def getAbstractFileByPath_def)
  have cur0: "\<forall>(p, e) \<in> set []. is_TFile ?h p \<longrightarrow> hash e = computeHash (\<lambda>d. d) (file_contents ?h p)"
    by simp
  have img: "isImageFile ''a.png''" "isImageFile ''b.png''" "\<not> isImageFile ''n.md''"
    by (simp_all add: isImageFile_def toLowerCase_def toLowerCase_char_def
                      SUPPORTED_IMAGE_EXTENSIONS_def)
  have r1: "snd (findDuplicate (\<lambda>d. d) ?h ?c ''bytes'') = Inr (Some ''a.png'')"
    using findDuplicate_search [OF d cur, of "''bytes''", THEN conjunct1]
    by (simp add: getFiles_def img cache_get_def computeHash_def file_contents_def
                  getAbstractFileByPath_def is_TFile_def)
  have "''gone.png'' \<in> purged_paths ?h (computeHash (\<lambda>d. d) ''bytes'') ?c"
    by (simp add: purged_paths_def computeHash_def is_TFile_def getAbstractFileByPath_def)
  with findDuplicate_search [OF d cur, of "''bytes''", THEN conjunct2, THEN conjunct2, THEN conjunct1]
  have r2: "''gone.png'' \<notin> fst ` set (fst (findDuplicate (\<lambda>d. d) ?h ?c ''bytes''))"
    by blast
  have r3: "snd (findDuplicate (\<lambda>d. d) ?h [] ''bytes'') = Inr (Some ''a.png'')"
    using findDuplicate_search [OF d cur0, of "''bytes''", THEN conjunct1]
    by (simp add: getFiles_def img cache_get_def computeHash_def file_contents_def
                  getAbstractFileByPath_def is_TFile_def)
  have dead: "\<not> is_TFile ?h ''gone.png''"
    by (simp add: is_TFile_def getAbstractFileByPath_def)
  from d dead r1 r2 r3 show ?thesis by blast
qed

text \<open>
  Claim C6 as stated fails: not every entry whose file is gone is deleted. Here the digest is
  the identity; \<open>gone1.png\<close> has another digest and \<open>gone2.png\<close> comes after the hit, and both
  stay in the cache.
\<close>

theorem findDuplicate_keeps_dead_entries:
  "findDuplicate (\<lambda>d. d)
       \<lparr>vault = [(''a.png'', TFile 1 ''bytes'')],
        resolvedLinks = [], linkpathDest = (\<lambda>l s. None), throws = (\<lambda>op p. False),
        modified = []\<rparr>
       [(''gone1.png'', \<lparr>hash = ''other'', mtime = 1\<rparr>), (''a.png'', \<lparr>hash = ''bytes'', mtime = 1\<rparr>),
        (''gone2.png'', \<lparr>hash = ''bytes'', mtime = 1\<rparr>)]
       ''bytes''
     = ([(''gone1.png'', \<lparr>hash = ''other'', mtime = 1\<rparr>), (''a.png'', \<lparr>hash = ''bytes'', mtime = 1\<rparr>),
         (''gone2.png'', \<lparr>hash = ''bytes'', mtime = 1\<rparr>)], Inr (Some ''a.png''))
   \<and> \<not> is_TFile
       \<lparr>vault = [(''a.png'', TFile 1 ''bytes'')],
        resolvedLinks = [], linkpathDest = (\<lambda>l s. None), throws = (\<lambda>op p. False),
        modified = []\<rparr> ''gone1.png''
   \<and> \<not> is_TFile
       \<lparr>vault = [(''a.png'', TFile 1 ''bytes'')],
        resolvedLinks = [], linkpathDest = (\<lambda>l s. None), throws = (\<lambda>op p. False),
        modified = []\<rparr> ''gone2.png''"
  by (simp add: findDuplicate_def calculateHashFromBuffer_def computeHash_def is_TFile_def
                getAbstractFileByPath_def Let_def)

section \<open>Updating the references to an image\<close>

lemma vault_modify_effect:
  "vault_modify h p c = Inr h' \<Longrightarrow>
     h' = h\<lparr>vault := set_contents p c (vault h), modified := (p, c) # modified h\<rparr>"
  by (auto simp: vault_modify_def split: if_splits)

lemma updateLinksInNote_error:
  "updateLinksInNote h p old new = (h', Inl e) \<Longrightarrow> h' = h"
  by (auto simp: updateLinksInNote_def Let_def split: sum.splits if_splits)

lemma updateLinksInNote_count:
  "updateLinksInNote h p old new = (h', Inr u) \<Longrightarrow>
     length (modified h') = length (modified h) + (if u then 1 else 0)"
  by (auto simp: updateLinksInNote_def Let_def dest!: vault_modify_effect
           split: sum.splits if_splits)

lemma updateLinksInNote_throws:
  "updateLinksInNote h p old new = (h', r) \<Longrightarrow> throws h' = throws h"
  by (auto simp: updateLinksInNote_def Let_def dest!: vault_modify_effect
           split: sum.splits if_splits)

lemma vault_read_file:
  "is_TFile h p \<Longrightarrow> \<not> throws h Read p \<Longrightarrow> vault_read h p = Inr (file_contents h p)"
  by (auto simp: is_TFile_def vault_read_def file_contents_def
           split: option.splits abstract_file.splits)

lemma updateLinksInNote_returns:
  assumes "is_TFile h p" "\<not> throws h Read p" "\<not> throws h Modify p"
  shows "\<exists>h' u. updateLinksInNote h p old new = (h', Inr u)"
  using assms vault_read_file [OF assms(1,2)]
  by (auto simp: updateLinksInNote_def Let_def vault_modify_def)

lemma updateImageReferences_loop_count:
  "updateImageReferences_loop ps old new h k = (h', Inr c) \<Longrightarrow>
     length (modified h') + k = length (modified h) + c"
proof (induction ps arbitrary: h k)
  case Nil
  then show ?case by simp
next
  case (Cons p ps)
  show ?case
  proof (cases "is_TFile h p")
    case False
    with Cons show ?thesis by simp
  next
    case True
    obtain h1 r where u: "updateLinksInNote h p old new = (h1, r)"
      by (cases "updateLinksInNote h p old new")
    show ?thesis
    proof (cases r)
      case (Inl e)
      with True u Cons.prems show ?thesis by simp
    next
      case (Inr b)
      with True u Cons.prems
      have "updateImageReferences_loop ps old new h1 (if b then Suc k else k) = (h', Inr c)"
        by simp
      from Cons.IH [OF this] updateLinksInNote_count [of h p old new h1 b] u Inr
      show ?thesis by (simp split: if_splits)
    qed
  qed
qed

lemma updateImageReferences_loop_throws:
  "updateImageReferences_loop ps old new h k = (h', r) \<Longrightarrow> throws h' = throws h"
proof (induction ps arbitrary: h k)
  case Nil
  then show ?case by simp
next
  case (Cons p ps)
  show ?case
  proof (cases "is_TFile h p")
    case False
    with Cons show ?thesis by simp
  next
    case True
    obtain h1 r1 where u: "updateLinksInNote h p old new = (h1, r1)"
      by (cases "updateLinksInNote h p old new")
    have t: "throws h1 = throws h" by (rule updateLinksInNote_throws [OF u])
    show ?thesis
    proof (cases r1)
      case (Inl e)
      with True u Cons.prems t show ?thesis by auto
    next
      case (Inr b)
      with True u Cons.prems
      have "updateImageReferences_loop ps old new h1 (if b then Suc k else k) = (h', r)"
        by simp
      from Cons.IH [OF this] t show ?thesis by simp
    qed
  qed
qed

lemma updateImageReferences_loop_returns:
  "\<forall>p. \<not> throws h Read p \<and> \<not> throws h Modify p \<Longrightarrow>
     \<exists>h' c. updateImageReferences_loop ps old new h k = (h', Inr c)"
proof (induction ps arbitrary: h k)
  case Nil
  then show ?case by simp
next
  case (Cons p ps)
  show ?case
  proof (cases "is_TFile h p")
    case False
    with Cons show ?thesis by simp
  next
    case True
    with Cons.prems obtain h1 u where u: "updateLinksInNote h p old new = (h1, Inr u)"
      using updateLinksInNote_returns by blast
    have "throws h1 = throws h" by (rule updateLinksInNote_throws [OF u])
    with Cons.prems have "\<forall>p. \<not> throws h1 Read p \<and> \<not> throws h1 Modify p" by simp
    from Cons.IH [OF this] True u show ?thesis by simp
  qed
qed

lemma batchUpdateReferences_loop_count:
  "batchUpdateReferences_loop us h k = (h', Inr c) \<Longrightarrow>
     length (modified h') + k = length (modified h) + c"
proof (induction us arbitrary: h k)
  case Nil
  then show ?case by simp
next
  case (Cons a us)
  obtain old new where a: "a = (old, new)" by (cases a)
  obtain h1 r where u: "updateImageReferences h old new = (h1, r)"
    by (cases "updateImageReferences h old new")
  show ?case
  proof (cases r)
    case (Inl e)
    with u a Cons.prems show ?thesis by simp
  next
    case (Inr n)
    with u a Cons.prems have "batchUpdateReferences_loop us h1 (k + n) = (h', Inr c)" by simp
    from Cons.IH [OF this] updateImageReferences_loop_count [of _ old new h 0 h1 n] u Inr
    show ?thesis by (simp add: updateImageReferences_def)
  qed
qed

lemma batchUpdateReferences_loop_returns:
  "\<forall>p. \<not> throws h Read p \<and> \<not> throws h Modify p \<Longrightarrow>
     \<exists>h' c. batchUpdateReferences_loop us h k = (h', Inr c)"
proof (induction us arbitrary: h k)
  case Nil
  then show ?case by simp
next
  case (Cons a us)
  obtain old new where a: "a = (old, new)" by (cases a)
  from Cons.prems obtain h1 n where u: "updateImageReferences h old new = (h1, Inr n)"
    using updateImageReferences_loop_returns unfolding updateImageReferences_def by blast
  then have "throws h1 = throws h"
    using updateImageReferences_loop_throws unfolding updateImageReferences_def by blast
  with Cons.prems have "\<forall>p. \<not> throws h1 Read p \<and> \<not> throws h1 Modify p" by simp
  from Cons.IH [OF this, of "k + n"] a u show ?case by simp
qed

text \<open>
  Claim C3, as the code has it. Neither \<open>updateImageReferences\<close> nor \<open>batchUpdateReferences\<close>
  catches anything: when \<open>updateLinksInNote\<close> ends with an error for a note, the loop over the
  notes ends with that error, whatever notes remain; when \<open>updateImageReferences\<close> ends with an
  error for a pair, the batch ends with that error, whatever pairs remain. A count that is
  returned is the number of calls of \<open>vault.modify\<close> made. When no read and no write throws, both
  functions return a count.
\<close>

theorem updateImageReferences_no_catch:
  "(\<forall>h' e. is_TFile h notePath \<longrightarrow> updateLinksInNote h notePath oldPath newPath = (h', Inl e) \<longrightarrow>
       updateImageReferences_loop (notePath # rest) oldPath newPath h n = (h, Inl e))
   \<and> (\<forall>h' e. updateImageReferences h oldPath newPath = (h', Inl e) \<longrightarrow>
       batchUpdateReferences h ((oldPath, newPath) # updates) = (h', Inl e))
   \<and> (\<forall>h' c. updateImageReferences h oldPath newPath = (h', Inr c) \<longrightarrow>
       length (modified h') = length (modified h) + c)
   \<and> (\<forall>h' c. batchUpdateReferences h updates = (h', Inr c) \<longrightarrow>
       length (modified h') = length (modified h) + c)
   \<and> ((\<forall>p. \<not> throws h Read p \<and> \<not> throws h Modify p) \<longrightarrow>
       (\<exists>h' c. updateImageReferences h oldPath newPath = (h', Inr c))
       \<and> (\<exists>h' c. batchUpdateReferences h updates = (h', Inr c)))"
proof (intro conjI allI impI)
  fix h' e
  assume "is_TFile h notePath" "updateLinksInNote h notePath oldPath newPath = (h', Inl e)"
  then show "updateImageReferences_loop (notePath # rest) oldPath newPath h n = (h, Inl e)"
    using updateLinksInNote_error by auto
next
  fix h' e
  assume "updateImageReferences h oldPath newPath = (h', Inl e)"
  then show "batchUpdateReferences h ((oldPath, newPath) # updates) = (h', Inl e)"
    by (simp add: batchUpdateReferences_def)
next
  fix h' c
  assume "updateImageReferences h oldPath newPath = (h', Inr c)"
  then show "length (modified h') = length (modified h) + c"
    using updateImageReferences_loop_count unfolding updateImageReferences_def by fastforce
next
  fix h' c
  assume "batchUpdateReferences h updates = (h', Inr c)"
  then show "length (modified h') = length (modified h) + c"
    using batchUpdateReferences_loop_count unfolding batchUpdateReferences_def by fastforce
next
  assume "\<forall>p. \<not> throws h Read p \<and> \<not> throws h Modify p"
  then show "\<exists>h' c. updateImageReferences h oldPath newPath = (h', Inr c)"
    using updateImageReferences_loop_returns unfolding updateImageReferences_def by blast
next
  assume "\<forall>p. \<not> throws h Read p \<and> \<not> throws h Modify p"
  then show "\<exists>h' c. batchUpdateReferences h updates = (h', Inr c)"
    using batchUpdateReferences_loop_returns unfolding batchUpdateReferences_def by blast
qed

text \<open>
  Claim C3 as stated fails. Two notes link to \<open>a.png\<close>, and reading the first throws: the call
  ends with that error, and the second note is neither read nor written.
\<close>

theorem updateImageReferences_aborts_on_failure:
  "updateImageReferences
     \<lparr>vault = [(''n1.md'', TFile 1 ''![[a.png]]''), (''n2.md'', TFile 1 ''![[a.png]]'')],
      resolvedLinks = [(''n1.md'', [(''a.png'', 1)]), (''n2.md'', [(''a.png'', 1)])],
      linkpathDest = (\<lambda>l s. None), throws = (\<lambda>op p. op = Read \<and> p = ''n1.md''),
      modified = []\<rparr> ''a.png'' ''b.png''
   = (\<lparr>vault = [(''n1.md'', TFile 1 ''![[a.png]]''), (''n2.md'', TFile 1 ''![[a.png]]'')],
      resolvedLinks = [(''n1.md'', [(''a.png'', 1)]), (''n2.md'', [(''a.png'', 1)])],
      linkpathDest = (\<lambda>l s. None), throws = (\<lambda>op p. op = Read \<and> p = ''n1.md''),
      modified = []\<rparr>, Inl (Thrown Read ''n1.md''))"
  by (simp add: updateImageReferences_def findNotesReferencingImage_def is_TFile_def
        getAbstractFileByPath_def updateLinksInNote_def vault_read_def)

text \<open>
  One note links to \<open>a.png\<close> and nothing throws: the note is rewritten, one write is made and the
  count is one.
\<close>

theorem updateImageReferences_counts_writes:
  "(\<forall>p. \<not> throws
       \<lparr>vault = [(''n.md'', TFile 7 ''![[a.png]]'')], resolvedLinks = [(''n.md'', [(''a.png'', 2)])],
        linkpathDest = (\<lambda>l s. None), throws = (\<lambda>op p. False), modified = []\<rparr> Read p
     \<and> \<not> throws
       \<lparr>vault = [(''n.md'', TFile 7 ''![[a.png]]'')], resolvedLinks = [(''n.md'', [(''a.png'', 2)])],
        linkpathDest = (\<lambda>l s. None), throws = (\<lambda>op p. False), modified = []\<rparr> Modify p)
   \<and> updateImageReferences
       \<lparr>vault = [(''n.md'', TFile 7 ''![[a.png]]'')], resolvedLinks = [(''n.md'', [(''a.png'', 2)])],
        linkpathDest = (\<lambda>l s. None), throws = (\<lambda>op p. False), modified = []\<rparr>
       ''a.png'' ''b.png''
     = (\<lparr>vault = [(''n.md'', TFile 7 ''![[b.png]]'')], resolvedLinks = [(''n.md'', [(''a.png'', 2)])],
         linkpathDest = (\<lambda>l s. None), throws = (\<lambda>op p. False),
         modified = [(''n.md'', ''![[b.png]]'')]\<rparr>, Inr 1)
   \<and> length (modified
       \<lparr>vault = [(''n.md'', TFile 7 ''![[b.png]]'')], resolvedLinks = [(''n.md'', [(''a.png'', 2)])],
        linkpathDest = (\<lambda>l s. None), throws = (\<lambda>op p. False),
        modified = [(''n.md'', ''![[b.png]]'')]\<rparr>)
     = length (modified
       \<lparr>vault = [(''n.md'', TFile 7 ''![[a.png]]'')], resolvedLinks = [(''n.md'', [(''a.png'', 2)])],
        linkpathDest = (\<lambda>l s. None), throws = (\<lambda>op p. False), modified = []\<rparr>) + 1"
proof -
  let ?h = "\<lparr>vault = [(''n.md'', TFile 7 ''![[a.png]]'')],
             resolvedLinks = [(''n.md'', [(''a.png'', 2)])],
             linkpathDest = (\<lambda>l s. None), throws = (\<lambda>op p. False), modified = []\<rparr>"
  have rw: "rewriteLinks ?h ''n.md'' ''a.png'' ''b.png'' ''![[a.png]]'' = ''![[b.png]]''"
    by code_simp
  have run: "updateImageReferences ?h ''a.png'' ''b.png''
     = (\<lparr>vault = [(''n.md'', TFile 7 ''![[b.png]]'')], resolvedLinks = [(''n.md'', [(''a.png'', 2)])],
         linkpathDest = (\<lambda>l s. None), throws = (\<lambda>op p. False),
         modified = [(''n.md'', ''![[b.png]]'')]\<rparr>, Inr 1)"
    by (simp add: updateImageReferences_def findNotesReferencingImage_def is_TFile_def
          getAbstractFileByPath_def updateLinksInNote_def vault_read_def vault_modify_def rw Let_def)
  have nothrow: "\<forall>p. \<not> throws ?h Read p \<and> \<not> throws ?h Modify p" by simp
  from updateImageReferences_no_catch [of ?h "''n.md''" "''a.png''" "''b.png''" "[]" 0 "[]",
       THEN conjunct2, THEN conjunct2, THEN conjunct1, rule_format, OF run]
    run nothrow
  show ?thesis by blast
qed

section \<open>Rewriting the links of a note\<close>

lemma escapeRegex_Cons:
  "escapeRegex (c # str) = (if regex_special c then CHR 0x5C # c # escapeRegex str
                            else c # escapeRegex str)"
  by (simp add: escapeRegex_def)

lemma escapeRegex_Nil: "escapeRegex [] = []"
  by (simp add: escapeRegex_def)

lemma backslash_special: "regex_special (CHR 0x5C)"
  by (simp add: regex_special_def)

lemma escapeRegex_literal: "match_literal_pattern (escapeRegex p) s = strip_prefix p s"
proof (induction p arbitrary: s)
  case Nil
  then show ?case by (simp add: escapeRegex_Nil)
next
  case (Cons c p)
  show ?case
  proof (cases "regex_special c")
    case True
    then show ?thesis
      using Cons.IH by (cases s) (simp_all add: escapeRegex_Cons)
  next
    case False
    then have nb: "c \<noteq> CHR 0x5C" using backslash_special by auto
    show ?thesis
    proof (cases "escapeRegex p")
      case Nil
      then have "p = []" by (cases p) (simp_all add: escapeRegex_Cons split: if_splits)
      with False Nil show ?thesis
        by (cases s) (simp_all add: escapeRegex_Cons escapeRegex_Nil)
    next
      case (Cons q qs)
      with False nb Cons.IH show ?thesis
        by (cases s) (simp_all add: escapeRegex_Cons)
    qed
  qed
qed

lemma strip_prefix_Some_iff: "strip_prefix p s = Some r \<longleftrightarrow> s = p @ r"
  by (induction p s rule: strip_prefix.induct) auto

lemma strip_prefix_append [simp]: "strip_prefix p (p @ r) = Some r"
  by (simp add: strip_prefix_Some_iff)

lemma strip_prefix_None_iff: "strip_prefix p s = None \<longleftrightarrow> \<not> prefix p s"
  by (cases "strip_prefix p s") (auto simp: strip_prefix_Some_iff prefix_def)

lemma replace_global_no_match:
  "\<not> has_match m s \<Longrightarrow> replace_global m rep pre 0 s = s"
proof (induction s arbitrary: pre)
  case Nil
  then show ?case by simp
next
  case (Cons c cs)
  from Cons.prems have "m (c # cs) = None" by (cases "m (c # cs)") simp_all
  moreover from Cons.prems have "\<not> has_match m cs" by simp
  ultimately show ?case using Cons.IH by simp
qed

lemma replace_global_skip:
  "replace_global m rep pre k s = replace_global m rep (pre @ take k s) 0 (drop k s)"
proof (induction s arbitrary: pre k)
  case Nil
  then show ?case by simp
next
  case (Cons c cs)
  then show ?case by (cases k) simp_all
qed

lemma replace_global_skip_all:
  "length s \<le> k \<Longrightarrow> replace_global m rep pre k s = []"
  by (subst replace_global_skip) simp

lemma replace_global_identity:
  assumes pos: "\<And>s captures n. m s = Some (captures, n) \<Longrightarrow> 0 < n"
    and rep: "\<And>matched pre post captures. rep matched pre post captures = matched"
  shows "replace_global m rep pre 0 s = s"
proof (induction s arbitrary: pre rule: length_induct)
  case (1 s)
  show ?case
  proof (cases s)
    case Nil
    then show ?thesis by simp
  next
    case (Cons c cs)
    show ?thesis
    proof (cases "m (c # cs)")
      case None
      with Cons 1 show ?thesis by simp
    next
      case (Some a)
      obtain captures n where a: "a = (captures, n)" by (cases a)
      from pos Some a have n: "0 < n" by blast
      have short: "length (drop (n - 1) cs) < length s" using Cons by simp
      have "replace_global m rep pre 0 s
              = take n (c # cs) @ replace_global m rep (pre @ [c]) (n - 1) cs"
        using Cons Some a rep by simp
      also have "replace_global m rep (pre @ [c]) (n - 1) cs = drop (n - 1) cs"
        using 1 short by (subst replace_global_skip) blast
      also have "take n (c # cs) @ drop (n - 1) cs = c # cs"
        using n by (cases n) simp_all
      finally show ?thesis using Cons by simp
    qed
  qed
qed

lemma match_wikilink_pos: "match_wikilink t s = Some (captures, n) \<Longrightarrow> 0 < n"
  by (auto simp: match_wikilink_def split: option.splits)

lemma match_wikilink_bang: "match_wikilink t s \<noteq> None \<Longrightarrow> \<exists>r. s = CHR ''!'' # r"
  by (auto simp: match_wikilink_def strip_prefix_Some_iff split: option.splits)

lemma match_markdown_absolute_bang:
  "match_markdown_absolute t s \<noteq> None \<Longrightarrow> \<exists>r. s = CHR ''!'' # r"
  by (auto simp: match_markdown_absolute_def strip_prefix_Some_iff split: option.splits)

lemma match_markdown_relative_bang:
  "match_markdown_relative t s \<noteq> None \<Longrightarrow> \<exists>r. s = CHR ''!'' # r"
  by (auto simp: match_markdown_relative_def strip_prefix_Some_iff split: option.splits)

lemma no_bang_no_match:
  assumes "\<And>s. m s \<noteq> None \<Longrightarrow> \<exists>r. s = CHR ''!'' # r"
  shows "CHR ''!'' \<notin> set s \<Longrightarrow> \<not> has_match m s"
proof (induction s)
  case Nil
  then show ?case by simp
next
  case (Cons c cs)
  have "m (c # cs) = None"
  proof (rule ccontr)
    assume "m (c # cs) \<noteq> None"
    from assms [OF this] Cons.prems show False by simp
  qed
  with Cons show ?case by simp
qed

lemma rewrite_name_wikilink_guard:
  assumes "file_name oldPath = file_name newPath
             \<or> linkpathDest h (file_name oldPath) notePath \<noteq> Some oldPath"
  shows "rewrite_name_wikilink h notePath oldPath newPath content = content"
proof (cases "file_name oldPath = file_name newPath")
  case True
  then show ?thesis by (simp add: rewrite_name_wikilink_def)
next
  case False
  with assms have "linkpathDest h (file_name oldPath) notePath \<noteq> Some oldPath" by simp
  with False show ?thesis
    by (simp add: rewrite_name_wikilink_def Let_def
                  replace_global_identity [OF match_wikilink_pos])
qed

text \<open>
  Claim C8. For a note that is read, and whose write does not throw, \<open>updateLinksInNote\<close> calls
  \<open>vault.modify\<close> exactly when the rewritten content differs from the content read, stores the
  rewritten content and answers true; otherwise it leaves the host as it is and answers false.
  When no rule matches anywhere in the content (the name-only rule counts only when the file
  name changes), the content comes out unchanged, nothing is written and the answer is false.
\<close>

theorem updateLinksInNote_writes_iff_changed:
  assumes "vault_read h notePath = Inr content"
  shows "(\<not> throws h Modify notePath \<longrightarrow>
            updateLinksInNote h notePath oldPath newPath =
              (let content' = rewriteLinks h notePath oldPath newPath content
               in if content' \<noteq> content
                  then (h\<lparr>vault := set_contents notePath content' (vault h),
                          modified := (notePath, content') # modified h\<rparr>, Inr True)
                  else (h, Inr False)))
       \<and> (\<not> has_match (match_wikilink oldPath) content
            \<and> (file_name oldPath \<noteq> file_name newPath \<longrightarrow>
                  \<not> has_match (match_wikilink (file_name oldPath)) content)
            \<and> \<not> has_match (match_markdown_absolute oldPath) content
            \<and> \<not> has_match (match_markdown_relative
                     (getRelativePath (note_folder notePath) oldPath)) content \<longrightarrow>
            rewriteLinks h notePath oldPath newPath content = content
            \<and> updateLinksInNote h notePath oldPath newPath = (h, Inr False))"
proof -
  have isfile: "is_TFile h notePath"
    using assms by (auto simp: vault_read_def is_TFile_def split: option.splits abstract_file.splits)
  have a: "\<not> throws h Modify notePath \<longrightarrow>
            updateLinksInNote h notePath oldPath newPath =
              (let content' = rewriteLinks h notePath oldPath newPath content
               in if content' \<noteq> content
                  then (h\<lparr>vault := set_contents notePath content' (vault h),
                          modified := (notePath, content') # modified h\<rparr>, Inr True)
                  else (h, Inr False))"
    using assms isfile by (simp add: updateLinksInNote_def Let_def vault_modify_def)
  have b: "rewriteLinks h notePath oldPath newPath content = content"
    if "\<not> has_match (match_wikilink oldPath) content"
      and "file_name oldPath \<noteq> file_name newPath \<longrightarrow>
                  \<not> has_match (match_wikilink (file_name oldPath)) content"
      and "\<not> has_match (match_markdown_absolute oldPath) content"
      and "\<not> has_match (match_markdown_relative
                     (getRelativePath (note_folder notePath) oldPath)) content"
    using that
    by (simp add: rewriteLinks_def rewrite_full_wikilink_def rewrite_name_wikilink_def
          rewrite_absolute_markdown_def rewrite_relative_markdown_def Let_def
          replace_global_no_match)
  from b have c: "updateLinksInNote h notePath oldPath newPath = (h, Inr False)"
    if "\<not> has_match (match_wikilink oldPath) content"
      and "file_name oldPath \<noteq> file_name newPath \<longrightarrow>
                  \<not> has_match (match_wikilink (file_name oldPath)) content"
      and "\<not> has_match (match_markdown_absolute oldPath) content"
      and "\<not> has_match (match_markdown_relative
                     (getRelativePath (note_folder notePath) oldPath)) content"
    using that assms by (simp add: updateLinksInNote_def Let_def)
  from a b c show ?thesis by blast
qed

text \<open>A note without any link to the image: nothing is written.\<close>

theorem updateLinksInNote_no_token:
  "vault_read
     \<lparr>vault = [(''n.md'', TFile 7 ''see ![[b.png]]'')], resolvedLinks = [],
      linkpathDest = (\<lambda>l s. None), throws = (\<lambda>op p. False), modified = []\<rparr> ''n.md''
     = Inr ''see ![[b.png]]''
   \<and> updateLinksInNote
     \<lparr>vault = [(''n.md'', TFile 7 ''see ![[b.png]]'')], resolvedLinks = [],
      linkpathDest = (\<lambda>l s. None), throws = (\<lambda>op p. False), modified = []\<rparr>
     ''n.md'' ''img/a.png'' ''img/c.png''
     = (\<lparr>vault = [(''n.md'', TFile 7 ''see ![[b.png]]'')], resolvedLinks = [],
         linkpathDest = (\<lambda>l s. None), throws = (\<lambda>op p. False), modified = []\<rparr>, Inr False)"
proof -
  let ?h = "\<lparr>vault = [(''n.md'', TFile 7 ''see ![[b.png]]'')], resolvedLinks = [],
             linkpathDest = (\<lambda>l s. None), throws = (\<lambda>op p. False), modified = []\<rparr>"
  have rd: "vault_read ?h ''n.md'' = Inr ''see ![[b.png]]''"
    by (simp add: vault_read_def getAbstractFileByPath_def)
  have m1: "\<not> has_match (match_wikilink ''img/a.png'') ''see ![[b.png]]''"
    by code_simp
  have m2: "\<not> has_match (match_wikilink (file_name ''img/a.png'')) ''see ![[b.png]]''"
    by code_simp
  have m3: "\<not> has_match (match_markdown_absolute ''img/a.png'') ''see ![[b.png]]''"
    by code_simp
  have m4: "\<not> has_match (match_markdown_relative
                 (getRelativePath (note_folder ''n.md'') ''img/a.png'')) ''see ![[b.png]]''"
    by code_simp
  from updateLinksInNote_writes_iff_changed [OF rd, of "''img/a.png''" "''img/c.png''",
         THEN conjunct2] m1 m2 m3 m4 rd
  show ?thesis by blast
qed

lemma split_on_parts_no_sep: "p \<in> set (split_on sep s) \<Longrightarrow> sep \<notin> set p"
  by (induction s arbitrary: p) (auto split: if_splits list.splits)

lemma file_name_no_slash: "CHR ''/'' \<notin> set (file_name p)"
  unfolding file_name_def
  by (rule split_on_parts_no_sep [OF last_in_set]) simp

lemma bare_link_not_full_path:
  assumes "CHR ''/'' \<in> set oldPath"
  shows "match_wikilink oldPath (''![['' @ file_name oldPath @ '']]'') = None"
proof (rule ccontr)
  assume "match_wikilink oldPath (''![['' @ file_name oldPath @ '']]'') \<noteq> None"
  then obtain r where "file_name oldPath @ '']]'' = oldPath @ r"
    by (auto simp: match_wikilink_def strip_prefix_Some_iff split: option.splits)
  then have "set oldPath \<subseteq> set (file_name oldPath @ '']]'')"
    by (metis set_append sup_ge1)
  with assms file_name_no_slash [of oldPath] show False by auto
qed

lemma bare_link_not_markdown_absolute:
  assumes "CHR '']'' \<notin> set name"
  shows "match_markdown_absolute t (''![['' @ name @ '']]'') = None"
proof -
  have "takeWhile (\<lambda>x. x \<noteq> CHR '']'') (CHR ''['' # name @ '']]'') = CHR ''['' # name"
    "dropWhile (\<lambda>x. x \<noteq> CHR '']'') (CHR ''['' # name @ '']]'') = '']]''"
    using assms by (simp_all add: takeWhile_append dropWhile_append)
  then show ?thesis
    by (simp add: match_markdown_absolute_def)
qed

lemma bare_link_not_markdown_relative:
  assumes "CHR '']'' \<notin> set name"
  shows "match_markdown_relative t (''![['' @ name @ '']]'') = None"
proof -
  have "takeWhile (\<lambda>x. x \<noteq> CHR '']'') (CHR ''['' # name @ '']]'') = CHR ''['' # name"
    "dropWhile (\<lambda>x. x \<noteq> CHR '']'') (CHR ''['' # name @ '']]'') = '']]''"
    using assms by (simp_all add: takeWhile_append dropWhile_append)
  then show ?thesis
    by (simp add: match_markdown_relative_def)
qed

text \<open>
  Claim C9, as the code has it. The name-only rule changes nothing unless the file name changed
  and the bare name, resolved from the note, is the old path: when either fails, the rule
  returns the content as it was. When the old path has a folder, a note that consists of the
  bare link to its file name then passes all four rules unchanged.
\<close>

theorem name_only_rule_guard:
  "(file_name oldPath = file_name newPath
      \<or> linkpathDest h (file_name oldPath) notePath \<noteq> Some oldPath \<longrightarrow>
    rewrite_name_wikilink h notePath oldPath newPath content = content)
   \<and> (CHR ''/'' \<in> set oldPath \<and> CHR ''!'' \<notin> set (file_name oldPath)
        \<and> CHR '']'' \<notin> set (file_name oldPath)
        \<and> (file_name oldPath = file_name newPath
             \<or> linkpathDest h (file_name oldPath) notePath \<noteq> Some oldPath) \<longrightarrow>
       rewriteLinks h notePath oldPath newPath (''![['' @ file_name oldPath @ '']]'')
         = ''![['' @ file_name oldPath @ '']]'')"
proof (intro conjI impI)
  assume "file_name oldPath = file_name newPath
            \<or> linkpathDest h (file_name oldPath) notePath \<noteq> Some oldPath"
  then show "rewrite_name_wikilink h notePath oldPath newPath content = content"
    by (rule rewrite_name_wikilink_guard)
next
  let ?name = "file_name oldPath"
  let ?c = "''![['' @ ?name @ '']]''"
  assume a: "CHR ''/'' \<in> set oldPath \<and> CHR ''!'' \<notin> set ?name \<and> CHR '']'' \<notin> set ?name
        \<and> (?name = file_name newPath \<or> linkpathDest h ?name notePath \<noteq> Some oldPath)"
  then have nb: "CHR ''!'' \<notin> set (''[['' @ ?name @ '']]'')" by simp
  have c: "?c = CHR ''!'' # (''[['' @ ?name @ '']]'')" by simp
  have s1: "\<not> has_match (match_wikilink oldPath) ?c"
  proof -
    have "\<not> has_match (match_wikilink oldPath) (''[['' @ ?name @ '']]'')"
      by (rule no_bang_no_match [OF match_wikilink_bang nb])
    moreover have "match_wikilink oldPath ?c = None"
      using bare_link_not_full_path a by blast
    ultimately show ?thesis by simp
  qed
  have s3: "\<not> has_match (match_markdown_absolute oldPath) ?c"
  proof -
    have "\<not> has_match (match_markdown_absolute oldPath) (''[['' @ ?name @ '']]'')"
      by (rule no_bang_no_match [OF match_markdown_absolute_bang nb])
    moreover have "match_markdown_absolute oldPath ?c = None"
      using bare_link_not_markdown_absolute a by blast
    ultimately show ?thesis by simp
  qed
  have s4: "\<not> has_match (match_markdown_relative t) ?c" for t
  proof -
    have "\<not> has_match (match_markdown_relative t) (''[['' @ ?name @ '']]'')"
      by (rule no_bang_no_match [OF match_markdown_relative_bang nb])
    moreover have "match_markdown_relative t ?c = None"
      using bare_link_not_markdown_relative a by blast
    ultimately show ?thesis by simp
  qed
  from a have s2: "rewrite_name_wikilink h notePath oldPath newPath ?c = ?c"
    by (intro rewrite_name_wikilink_guard) simp
  show "rewriteLinks h notePath oldPath newPath ?c = ?c"
    by (simp only: rewriteLinks_def rewrite_full_wikilink_def rewrite_absolute_markdown_def
          rewrite_relative_markdown_def Let_def replace_global_no_match [OF s1] s2
          replace_global_no_match [OF s3] replace_global_no_match [OF s4])
qed

text \<open>
  Claim C9 as stated fails when the old path has no folder: the full path is then the bare
  name, and the full-path rule rewrites the bare link although the file name did not change.
\<close>

theorem bare_link_rewritten_by_full_path_rule:
  "rewriteLinks
     \<lparr>vault = [], resolvedLinks = [], linkpathDest = (\<lambda>l s. Some ''x.png''),
      throws = (\<lambda>op p. False), modified = []\<rparr>
     ''n.md'' ''x.png'' ''img/x.png'' ''![[x.png]]'' = ''![[img/x.png]]''
   \<and> file_name ''x.png'' = file_name ''img/x.png''"
  by code_simp

text \<open>
  The bare name resolves to another file \<open>b/x.png\<close>: the link stays, although \<open>a/x.png\<close> is
  renamed.
\<close>

theorem name_only_rule_guard_example:
  "CHR ''/'' \<in> set ''a/x.png'' \<and> CHR ''!'' \<notin> set (file_name ''a/x.png'')
   \<and> CHR '']'' \<notin> set (file_name ''a/x.png'')
   \<and> linkpathDest
        \<lparr>vault = [], resolvedLinks = [], linkpathDest = (\<lambda>l s. Some ''b/x.png''),
         throws = (\<lambda>op p. False), modified = []\<rparr> (file_name ''a/x.png'') ''n.md''
       \<noteq> Some ''a/x.png''
   \<and> rewriteLinks
        \<lparr>vault = [], resolvedLinks = [], linkpathDest = (\<lambda>l s. Some ''b/x.png''),
         throws = (\<lambda>op p. False), modified = []\<rparr>
        ''n.md'' ''a/x.png'' ''a/y.png'' ''![[x.png]]'' = ''![[x.png]]''"
proof -
  let ?h = "\<lparr>vault = [], resolvedLinks = [], linkpathDest = (\<lambda>l s. Some ''b/x.png''),
         throws = (\<lambda>op p. False), modified = []\<rparr>"
  have n: "file_name ''a/x.png'' = ''x.png''" by code_simp
  have h: "CHR ''/'' \<in> set ''a/x.png'' \<and> CHR ''!'' \<notin> set (file_name ''a/x.png'')
        \<and> CHR '']'' \<notin> set (file_name ''a/x.png'')
        \<and> (file_name ''a/x.png'' = file_name ''a/y.png''
             \<or> linkpathDest ?h (file_name ''a/x.png'') ''n.md'' \<noteq> Some ''a/x.png'')"
    by (simp add: n)
  from name_only_rule_guard [of "''a/x.png''" "''a/y.png''" ?h "''n.md''", THEN conjunct2,
         rule_format, OF h] h
  show ?thesis by (simp add: n)
qed

section \<open>Notes that consist of one link\<close>

lemma link_safe_iff:
  "link_safe p \<longleftrightarrow>
     CHR ''!'' \<notin> set p \<and> CHR ''['' \<notin> set p \<and> CHR '']'' \<notin> set p
     \<and> CHR ''|'' \<notin> set p \<and> CHR ''$'' \<notin> set p"
  by (auto simp: link_safe_def list_all_iff)

lemma split_on_chars: "\<Union> (set ` set (split_on sep s)) \<subseteq> set s"
proof (induction s)
  case Nil
  then show ?case by simp
next
  case (Cons c s)
  show ?case
  proof (cases "c = sep")
    case True
    with Cons show ?thesis by auto
  next
    case False
    obtain x xs where x: "split_on sep s = x # xs"
      using split_on_not_Nil [of sep s] by (cases "split_on sep s") auto
    with Cons have "set x \<subseteq> set s" "\<Union> (set ` set xs) \<subseteq> set s" by auto
    with False x show ?thesis by auto
  qed
qed

lemma split_on_parts_subset: "p \<in> set (split_on sep s) \<Longrightarrow> set p \<subseteq> set s"
  using split_on_chars [of sep s] by blast



lemma set_join_subset: "set (join sep xs) \<subseteq> set sep \<union> \<Union> (set ` set xs)"
  by (induction sep xs rule: join.induct) auto

lemma set_repeat_subset: "set (repeat s n) \<subseteq> set s"
  by (induction n) (auto simp: repeat_def)

lemma getRelativePath_chars:
  "set (getRelativePath f t) \<subseteq> set t \<union> {CHR ''.'', CHR ''/''}"
proof -
  have parts: "\<Union> (set ` set (drop n (path_parts t))) \<subseteq> set t" for n
  proof
    fix x assume "x \<in> \<Union> (set ` set (drop n (path_parts t)))"
    then obtain p where "p \<in> set (drop n (path_parts t))" and x: "x \<in> set p" by blast
    then have "p \<in> set (split_on (CHR ''/'') t)"
      by (auto simp: path_parts_def dest!: in_set_dropD)
    from split_on_parts_subset [OF this] x show "x \<in> set t" by blast
  qed
  have "set (join ''/'' (drop n (path_parts t))) \<subseteq> set t \<union> {CHR ''.'', CHR ''/''}" for n
    using set_join_subset [of "''/''" "drop n (path_parts t)"] parts [of n] by auto
  moreover have "set (repeat ''../'' k) \<subseteq> {CHR ''.'', CHR ''/''}" for k
    using set_repeat_subset [of "''../''" k] by auto
  ultimately show ?thesis
    by (auto simp: getRelativePath_def Let_def)
qed

lemma link_safe_getRelativePath: "link_safe t \<Longrightarrow> link_safe (getRelativePath f t)"
  using getRelativePath_chars [of f t] by (auto simp: link_safe_iff)

lemma getRelativePath_dot: "\<exists>r. getRelativePath f t = CHR ''.'' # r"
proof (cases "length (path_parts f) - commonLength_loop 0 (path_parts f) (path_parts t)")
  case 0
  then show ?thesis by (simp add: getRelativePath_def Let_def)
next
  case (Suc k)
  then show ?thesis by (simp add: getRelativePath_def Let_def repeat_def)
qed

lemma getSubstitution_plain_append:
  "CHR ''$'' \<notin> set x \<Longrightarrow>
     getSubstitution matched pre post captures (x @ t) = x @ getSubstitution matched pre post captures t"
proof (induction x)
  case Nil
  then show ?case by simp
next
  case (Cons c x)
  then show ?case by (cases "x @ t") auto
qed

lemma getSubstitution_plain:
  "CHR ''$'' \<notin> set t \<Longrightarrow> getSubstitution matched pre post captures t = t"
  using getSubstitution_plain_append [of t matched pre post captures "[]"] by simp

lemma getSubstitution_group1:
  "getSubstitution matched pre post [g] (CHR ''$'' # CHR ''1'' # CHR '']'' # r)
     = (case g of Some s \<Rightarrow> s | None \<Rightarrow> []) @ getSubstitution matched pre post [g] (CHR '']'' # r)"
  by (simp add: is_digit_def digit_val_def one_digit_ref_def capture_text_def)

lemma replace_global_single:
  assumes "m s = Some (captures, length s)" and "s \<noteq> []"
  shows "replace_global m rep [] 0 s = rep s [] [] captures"
proof -
  from assms(2) obtain c cs where s: "s = c # cs" by (cases s) auto
  with assms(1) show ?thesis by (simp add: replace_global_skip_all)
qed


lemma markdown_template:
  assumes "CHR ''$'' \<notin> set new"
  shows "template (''![$1]('' @ new @ '')'') matched pre post [g]
           = ''!['' @ (case g of Some s \<Rightarrow> s | None \<Rightarrow> []) @ '']('' @ new @ '')''"
proof -
  have "getSubstitution matched pre post [g] (''!['' @ (''$1]('' @ new @ '')''))
          = ''!['' @ getSubstitution matched pre post [g] (''$1]('' @ new @ '')'')"
    by (rule getSubstitution_plain_append) simp
  also have "getSubstitution matched pre post [g] (''$1]('' @ new @ '')'')
          = (case g of Some s \<Rightarrow> s | None \<Rightarrow> [])
            @ getSubstitution matched pre post [g] ('']('' @ new @ '')'')"
    using getSubstitution_group1 [of matched pre post g "''('' @ new @ '')''"] by simp
  also have "getSubstitution matched pre post [g] ('']('' @ new @ '')'') = '']('' @ new @ '')''"
    by (rule getSubstitution_plain) (simp add: assms)
  finally show ?thesis by (simp add: template_def)
qed

lemma takeWhile_to_bracket:
  "CHR '']'' \<notin> set alt \<Longrightarrow> takeWhile (\<lambda>x. x \<noteq> CHR '']'') (alt @ CHR '']'' # r) = alt"
  by (induction alt) auto

lemma dropWhile_to_bracket:
  "CHR '']'' \<notin> set alt \<Longrightarrow>
     dropWhile (\<lambda>x. x \<noteq> CHR '']'') (alt @ CHR '']'' # r) = CHR '']'' # r"
  by (induction alt) auto






lemma markdown_not_wikilink:
  "CHR ''['' \<notin> set alt \<Longrightarrow> match_wikilink t (''!['' @ alt @ CHR '']'' # r) = None"
  by (cases alt) (simp_all add: match_wikilink_def)


lemma match_markdown_relative_whole:
  assumes "CHR '']'' \<notin> set alt"
  shows "match_markdown_relative t (''!['' @ alt @ '']('' @ t @ '')'')
           = Some ([Some alt], length (''!['' @ alt @ '']('' @ t @ '')''))"
  using takeWhile_to_bracket [OF assms, of "''('' @ t @ '')''"]
        dropWhile_to_bracket [OF assms, of "''('' @ t @ '')''"]
        strip_prefix_append [of "t @ '')''" "[]"]
  by (simp add: match_markdown_relative_def)



lemma match_markdown_absolute_other:
  assumes "CHR '']'' \<notin> set alt" "c \<noteq> CHR ''/''" "t = [] \<or> hd t \<noteq> c" "c \<noteq> CHR '')''"
  shows "match_markdown_absolute t (''!['' @ alt @ '']('' @ c # r) = None"
proof -
  have "strip_prefix (t @ '')'') (c # r) = None"
    using assms(3,4) by (cases t) auto
  then show ?thesis
    using takeWhile_to_bracket [OF assms(1), of "CHR ''('' # c # r"]
        dropWhile_to_bracket [OF assms(1), of "CHR ''('' # c # r"] assms(2)
    by (simp add: match_markdown_absolute_def)
qed



lemma wikilink_no_match_at_head:
  assumes "CHR ''!'' \<notin> set rest" and "match_wikilink t (CHR ''!'' # rest) = None"
  shows "\<not> has_match (match_wikilink t) (CHR ''!'' # rest)"
proof -
  have "\<not> has_match (match_wikilink t) rest"
    using match_wikilink_bang by (intro no_bang_no_match assms(1)) blast
  with assms(2) show ?thesis by simp
qed

lemma markdown_absolute_no_match_at_head:
  assumes "CHR ''!'' \<notin> set rest" and "match_markdown_absolute t (CHR ''!'' # rest) = None"
  shows "\<not> has_match (match_markdown_absolute t) (CHR ''!'' # rest)"
proof -
  have "\<not> has_match (match_markdown_absolute t) rest"
    using match_markdown_absolute_bang by (intro no_bang_no_match assms(1)) blast
  with assms(2) show ?thesis by simp
qed



lemma markdown_text_Cons: "markdown_text alt t = CHR ''!'' # (''['' @ alt @ '']('' @ t @ '')'')"
  by (simp add: markdown_text_def)










lemma markdown_text_not_Nil: "markdown_text alt t \<noteq> []"
  by (simp add: markdown_text_def)

lemma markdown_text_no_wikilink:
  assumes "CHR ''['' \<notin> set alt" "CHR ''!'' \<notin> set alt" "CHR ''!'' \<notin> set t"
  shows "\<not> has_match (match_wikilink x) (markdown_text alt t)"
proof -
  have nb: "CHR ''!'' \<notin> set (''['' @ alt @ '']('' @ t @ '')'')" using assms(2,3) by simp
  have none: "match_wikilink x (CHR ''!'' # (''['' @ alt @ '']('' @ t @ '')'')) = None"
    using markdown_not_wikilink [OF assms(1), of x "''('' @ t @ '')''"] by simp
  show ?thesis
    unfolding markdown_text_Cons by (rule wikilink_no_match_at_head [OF nb none])
qed

lemma wikilink_rules_on_markdown:
  assumes "CHR ''['' \<notin> set alt" "CHR ''!'' \<notin> set alt" "CHR ''!'' \<notin> set t"
  shows "rewrite_name_wikilink h n A B (rewrite_full_wikilink A B (markdown_text alt t))
           = markdown_text alt t"
proof -
  have s1: "rewrite_full_wikilink A B (markdown_text alt t) = markdown_text alt t"
    unfolding rewrite_full_wikilink_def
    by (rule replace_global_no_match [OF markdown_text_no_wikilink [OF assms]])
  show ?thesis
    unfolding s1
    by (simp add: rewrite_name_wikilink_def Let_def
          replace_global_no_match [OF markdown_text_no_wikilink [OF assms]])
qed


lemma markdown_relative_text_whole:
  assumes "CHR '']'' \<notin> set alt"
  shows "match_markdown_relative t (markdown_text alt t)
           = Some ([Some alt], length (markdown_text alt t))"
  using match_markdown_relative_whole [OF assms, of t] by (simp add: markdown_text_def)


lemma replace_markdown_relative_text:
  assumes "CHR '']'' \<notin> set alt"
  shows "replace_global (match_markdown_relative t) rep [] 0 (markdown_text alt t)
           = rep (markdown_text alt t) [] [] [Some alt]"
  by (rule replace_global_single [where m = "match_markdown_relative t"
        and s = "markdown_text alt t" and captures = "[Some alt]",
        OF markdown_relative_text_whole [OF assms] markdown_text_not_Nil])

lemma markdown_template_text:
  "CHR ''$'' \<notin> set new \<Longrightarrow>
     template (''![$1]('' @ new @ '')'') matched pre post [Some alt] = markdown_text alt new"
  using markdown_template [of new matched pre post "Some alt"] by (simp add: markdown_text_def)



lemma markdown_text_other_absolute:
  assumes "CHR '']'' \<notin> set alt" "CHR ''!'' \<notin> set alt" "CHR ''!'' \<notin> set (c # r)"
    and "c \<noteq> CHR ''/''" "t = [] \<or> hd t \<noteq> c" "c \<noteq> CHR '')''"
  shows "\<not> has_match (match_markdown_absolute t) (markdown_text alt (c # r))"
proof -
  have nb: "CHR ''!'' \<notin> set (''['' @ alt @ '']('' @ (c # r) @ '')'')" using assms(2,3) by simp
  have none: "match_markdown_absolute t (CHR ''!'' # (''['' @ alt @ '']('' @ (c # r) @ '')'')) = None"
    using match_markdown_absolute_other [OF assms(1,4,5,6), of "r @ '')''"] by simp
  show ?thesis
    unfolding markdown_text_Cons by (rule markdown_absolute_no_match_at_head [OF nb none])
qed


lemma rewrite_relative_markdown_link:
  assumes "link_safe A" "link_safe B" "link_safe alt" "\<not> prefix ''.'' A"
  shows "rewriteLinks h n A B (markdown_text alt (getRelativePath (note_folder n) A))
           = markdown_text alt (getRelativePath (note_folder n) B)"
proof -
  let ?ra = "getRelativePath (note_folder n) A" and ?rb = "getRelativePath (note_folder n) B"
  from assms have alt: "CHR ''!'' \<notin> set alt" "CHR ''['' \<notin> set alt" "CHR '']'' \<notin> set alt"
    by (simp_all add: link_safe_iff)
  from link_safe_getRelativePath [OF assms(1)] have ra: "CHR ''!'' \<notin> set ?ra"
    by (simp add: link_safe_iff)
  from link_safe_getRelativePath [OF assms(2)] have rb: "CHR ''$'' \<notin> set ?rb"
    by (simp add: link_safe_iff)
  obtain r where rel: "?ra = CHR ''.'' # r"
    using getRelativePath_dot by blast
  have w: "rewrite_name_wikilink h n A B (rewrite_full_wikilink A B (markdown_text alt ?ra))
             = markdown_text alt ?ra"
    by (rule wikilink_rules_on_markdown) (use ra alt in simp_all)
  have hd: "A = [] \<or> hd A \<noteq> CHR ''.''"
    using assms(4) by (cases A) auto
  have "\<not> has_match (match_markdown_absolute A) (markdown_text alt (CHR ''.'' # r))"
    by (rule markdown_text_other_absolute) (use alt ra rel hd in simp_all)
  then have s3: "rewrite_absolute_markdown A B (markdown_text alt ?ra) = markdown_text alt ?ra"
    unfolding rewrite_absolute_markdown_def rel by (rule replace_global_no_match)
  have s4: "rewrite_relative_markdown n A B (markdown_text alt ?ra) = markdown_text alt ?rb"
    unfolding rewrite_relative_markdown_def Let_def
    by (simp only: replace_markdown_relative_text [OF alt(3)] markdown_template_text [OF rb])
  show ?thesis
    unfolding rewriteLinks_def w s3 s4 ..
qed

text \<open>
  Claim C5. Relative link targets are recomputed by common-prefix resolution. \<open>getRelativePath\<close>
  takes the non-empty segments of both arguments, drops their longest common prefix, writes
  \<open>./\<close> when the segments of \<open>fromFolder\<close> are a prefix of those of \<open>toPath\<close> and one \<open>../\<close>
  per remaining segment of \<open>fromFolder\<close> otherwise, and appends the remaining segments of
  \<open>toPath\<close> joined by \<open>/\<close>. FileManager's copy computes the same, and from folder \<open>a/b\<close> the
  path \<open>c/x.png\<close> is \<open>../../c/x.png\<close>. The rewrite uses it: a relative link to the old path, as
  computed from the note's folder, becomes the relative link to the new path computed from the
  same folder, whatever the alternative text; in the note \<open>a/b/note.md\<close> the link to
  \<open>./img/x.png\<close> becomes the link to \<open>../../c/x.png\<close>, and the text around it stays.
\<close>

theorem getRelativePath_common_prefix:
  "getRelativePath fromFolder toPath =
     (let fromParts = path_parts fromFolder;
          toParts = path_parts toPath;
          common = longest_common_prefix fromParts toParts
      in (if prefix fromParts toParts then ''./''
          else repeat ''../'' (length fromParts - length common))
         @ join ''/'' (drop (length common) toParts))
   \<and> FileManager_getRelativePath fromFolder toPath = getRelativePath fromFolder toPath
   \<and> getRelativePath ''a/b'' ''c/x.png'' = ''../../c/x.png''
   \<and> (link_safe oldPath \<and> link_safe newPath \<and> link_safe alt \<and> \<not> prefix ''.'' oldPath \<longrightarrow>
        rewriteLinks h notePath oldPath newPath
            (markdown_text alt (getRelativePath (note_folder notePath) oldPath))
          = markdown_text alt (getRelativePath (note_folder notePath) newPath))
   \<and> rewriteLinks h ''a/b/note.md'' ''a/b/img/x.png'' ''c/x.png''
         ''Figure: ![shot](./img/x.png) and ![[other.png]].''
       = ''Figure: ![shot](../../c/x.png) and ![[other.png]].''"
proof -
  have ex: "getRelativePath ''a/b'' ''c/x.png'' = ''../../c/x.png''" by code_simp
  have fm: "FileManager_getRelativePath fromFolder toPath = getRelativePath fromFolder toPath"
    by (simp add: FileManager_getRelativePath_def getRelativePath_def)
  have rw: "rewriteLinks h ''a/b/note.md'' ''a/b/img/x.png'' ''c/x.png''
         ''Figure: ![shot](./img/x.png) and ![[other.png]].''
       = ''Figure: ![shot](../../c/x.png) and ![[other.png]].''"
    by code_simp
  from ex fm rw getRelativePath_eq [of fromFolder toPath]
    rewrite_relative_markdown_link [of oldPath newPath alt h notePath]
  show ?thesis by blast
qed

text \<open>The same move in a note that is the link alone.\<close>

theorem getRelativePath_recomputed_in_link:
  "link_safe ''a/b/img/x.png'' \<and> link_safe ''c/x.png'' \<and> link_safe ''shot''
   \<and> \<not> prefix ''.'' ''a/b/img/x.png''
   \<and> rewriteLinks
        \<lparr>vault = [], resolvedLinks = [], linkpathDest = (\<lambda>l s. None),
         throws = (\<lambda>op p. False), modified = []\<rparr>
        ''a/b/note.md'' ''a/b/img/x.png'' ''c/x.png'' ''![shot](./img/x.png)''
      = ''![shot](../../c/x.png)''"
proof -
  let ?h = "\<lparr>vault = [], resolvedLinks = [], linkpathDest = (\<lambda>l s. None),
         throws = (\<lambda>op p. False), modified = []\<rparr>"
  have s: "link_safe ''a/b/img/x.png''" "link_safe ''c/x.png''" "link_safe ''shot''"
    by code_simp+
  have p: "\<not> prefix ''.'' ''a/b/img/x.png''" by simp
  have f: "note_folder ''a/b/note.md'' = ''a/b''" by code_simp
  have ra: "getRelativePath ''a/b'' ''a/b/img/x.png'' = ''./img/x.png''" by code_simp
  have rb: "getRelativePath ''a/b'' ''c/x.png'' = ''../../c/x.png''" by code_simp
  have ma: "markdown_text ''shot'' ''./img/x.png'' = ''![shot](./img/x.png)''" by code_simp
  have mb: "markdown_text ''shot'' ''../../c/x.png'' = ''![shot](../../c/x.png)''" by code_simp
  from getRelativePath_common_prefix [of "''a/b''" "''c/x.png''" "''a/b/img/x.png''" "''c/x.png''"
      "''shot''" ?h "''a/b/note.md''"] s p
  have "rewriteLinks ?h ''a/b/note.md'' ''a/b/img/x.png'' ''c/x.png''
            (markdown_text ''shot'' (getRelativePath (note_folder ''a/b/note.md'') ''a/b/img/x.png''))
          = markdown_text ''shot'' (getRelativePath (note_folder ''a/b/note.md'') ''c/x.png'')"
    by blast
  then have "rewriteLinks ?h ''a/b/note.md'' ''a/b/img/x.png'' ''c/x.png'' ''![shot](./img/x.png)''
      = ''![shot](../../c/x.png)''"
    by (simp only: f ra rb ma mb)
  with s p show ?thesis by blast
qed








end
